theory Spec2Isabelle
  imports
    Complex_Main
    "HOL-Library.Char_ord"
    "HOL-Library.List_Lexorder"
    "HOL-Library.Product_Lexorder"
begin

chapter \<open>The citation manager of review_chapter (src/citation_manager.py)\<close>

text \<open>
  A shallow embedding of \<^verbatim>\<open>Citation\<close>, \<^verbatim>\<open>CitationManager\<close> and
  \<^verbatim>\<open>create_citation_from_bibtex\<close>.

  Conventions of the embedding.
  \<^item> A Python \<^verbatim>\<open>str\<close> is a \<^typ>\<open>string\<close>; a \<^typ>\<open>char\<close> stands for the code point
    of the same number, so the strings covered are those over U+0000..U+00FF. The character
    classes of Python (\<^verbatim>\<open>str.isspace\<close>, the \<^verbatim>\<open>\w\<close> of \<^verbatim>\<open>re\<close>,
    \<^verbatim>\<open>str.lower\<close>) are written out on that range.
  \<^item> \<^verbatim>\<open>Optional[str]\<close> is \<^typ>\<open>string option\<close>; the source tests such a field by
    truthiness (\<^verbatim>\<open>if citation.doi:\<close>), which is \<open>truthy\<close> below: present and not empty.
  \<^item> Python's \<^verbatim>\<open>int\<close> is \<^typ>\<open>int\<close>.
  \<^item> \<^verbatim>\<open>self.citations\<close> is a \<^verbatim>\<open>dict\<close> from citekeys to \<^verbatim>\<open>Citation\<close> objects. It is
    an association list in insertion order (keys distinct) from citekeys to object
    references, together with the objects those references denote: \<^verbatim>\<open>verify_citation\<close>
    writes into the object it looked up.
  \<^item> The network and the clock are inputs: the outcome of the n-th \<^verbatim>\<open>requests.head\<close> call
    of a run, and the text \<^verbatim>\<open>datetime.utcnow().isoformat()\<close> returns.
\<close>

section \<open>Data model\<close>

record Citation =
  citekey :: string
  title :: string
  authors :: "string list"
  year :: int
  journal :: "string option"
  ads_bibcode :: "string option"
  doi :: "string option"
  arxiv_id :: "string option"
  ads_url :: "string option"
  publisher_url :: "string option"
  last_verified :: "string option"
  http_status_ads :: "int option"
  http_status_doi :: "int option"
  crossref_match :: bool
  ads_match :: bool
  notes_str :: string
  bibtex_entry :: string

type_synonym ref = nat

record CitationManager =
  citations :: "(string \<times> ref) list"
  objects :: "ref \<Rightarrow> Citation"
  max_retries :: int

datatype py_error = KeyError | ZeroDivisionError | ValueError

text \<open>Truthiness of an optional string: \<^verbatim>\<open>None\<close> and \<^verbatim>\<open>""\<close> are false.\<close>

fun truthy :: "string option \<Rightarrow> bool" where
  "truthy None = False"
| "truthy (Some s) = (s \<noteq> [])"

text \<open>\<^verbatim>\<open>self.citations.values()\<close>, in dictionary order.\<close>

definition citation_values :: "CitationManager \<Rightarrow> Citation list" where
  "citation_values m = map (\<lambda>(k, r). objects m r) (citations m)"

section \<open>Verification engine\<close>

text \<open>
  What one \<^verbatim>\<open>requests.head\<close> call does: the server answers with a status code, or the call
  raises \<^verbatim>\<open>requests.RequestException\<close> (connection failure, timeout, invalid URL). The
  network gives the outcome of the n-th call of the run for the URL asked.
\<close>

datatype outcome = Response int | RequestException

type_synonym network = "nat \<Rightarrow> string \<Rightarrow> outcome"

text \<open>
  \<^verbatim>\<open>verify_url\<close>: the loop over \<^verbatim>\<open>range(self.max_retries)\<close>. The result is the returned
  pair and the number of \<^verbatim>\<open>requests.head\<close> calls made so far in the run (\<open>calls\<close> counts
  them on entry).
\<close>

fun verify_url_loop ::
  "int \<Rightarrow> network \<Rightarrow> string \<Rightarrow> nat \<Rightarrow> nat list \<Rightarrow> (bool \<times> int) \<times> nat" where
  "verify_url_loop mr net url calls [] = ((False, 0), calls)"
| "verify_url_loop mr net url calls (attempt # rest) =
     (case net calls url of
        Response status_code \<Rightarrow> ((status_code = 200, status_code), Suc calls)
      | RequestException \<Rightarrow>
          if int attempt = mr - 1 then ((False, 0), Suc calls)
          else verify_url_loop mr net url (Suc calls) rest)"

definition verify_url :: "int \<Rightarrow> network \<Rightarrow> string \<Rightarrow> nat \<Rightarrow> (bool \<times> int) \<times> nat" where
  "verify_url mr net url calls = verify_url_loop mr net url calls [0 ..< nat mr]"

datatype verify_report =
  Error string
| Results (ads_url_valid: bool) (doi_url_valid: bool) (metadata_complete: bool)

text \<open>
  \<^verbatim>\<open>verify_citation\<close>. The two URL checks run in the order of the source, each writing its
  fields into the object; \<open>now\<close> is the timestamp text.
\<close>

definition verify_ads :: "int \<Rightarrow> network \<Rightarrow> nat \<Rightarrow> Citation \<Rightarrow> bool \<times> Citation \<times> nat" where
  "verify_ads mr net calls c =
     (if truthy (ads_url c) then
        (case verify_url mr net (the (ads_url c)) calls of
           ((valid, status), calls') \<Rightarrow> (valid, c\<lparr>http_status_ads := Some status\<rparr>, calls'))
      else (False, c, calls))"

definition verify_doi :: "int \<Rightarrow> network \<Rightarrow> nat \<Rightarrow> Citation \<Rightarrow> bool \<times> Citation \<times> nat" where
  "verify_doi mr net calls c =
     (if truthy (doi c) then
        (let doi_url = ''https://doi.org/'' @ the (doi c) in
         case verify_url mr net doi_url calls of
           ((valid, status), calls') \<Rightarrow>
             (valid, c\<lparr>http_status_doi := Some status, publisher_url := Some doi_url\<rparr>, calls'))
      else (False, c, calls))"

definition verify_citation ::
  "CitationManager \<Rightarrow> network \<Rightarrow> string \<Rightarrow> nat \<Rightarrow> string
     \<Rightarrow> verify_report \<times> CitationManager \<times> nat" where
  "verify_citation m net now calls key =
     (case map_of (citations m) key of
        None \<Rightarrow> (Error ''Citation not found'', m, calls)
      | Some r \<Rightarrow>
          (case verify_ads (max_retries m) net calls (objects m r) of
             (ads_valid, c1, calls1) \<Rightarrow>
          (case verify_doi (max_retries m) net calls1 c1 of
             (doi_valid, c2, calls2) \<Rightarrow>
          (let complete = (title c2 \<noteq> [] \<and> authors c2 \<noteq> [] \<and> year c2 \<noteq> 0 \<and> citekey c2 \<noteq> []);
               c3 = c2\<lparr>last_verified := Some now\<rparr>
           in (Results ads_valid doi_valid complete,
               m\<lparr>objects := (objects m)(r := c3)\<rparr>, calls2)))))"

section \<open>Verification report\<close>

record VerificationReport =
  total_citations :: nat
  verified_count :: nat
  ads_urls_valid :: nat
  doi_urls_valid :: nat
  verification_percentage :: real

text \<open>
  Python's \<^verbatim>\<open>/\<close> raises \<^verbatim>\<open>ZeroDivisionError\<close> on a zero divisor. The quotient is the exact
  one (the rounding of the float is not modelled).
\<close>

definition py_truediv :: "nat \<Rightarrow> nat \<Rightarrow> py_error + real" where
  "py_truediv a b = (if b = 0 then Inl ZeroDivisionError else Inr (real a / real b))"

definition get_verification_report :: "CitationManager \<Rightarrow> py_error + VerificationReport" where
  "get_verification_report m =
     (let total = length (citations m);
          verified = length (filter (\<lambda>c. truthy (last_verified c)) (citation_values m));
          ads_valid = length (filter (\<lambda>c. http_status_ads c = Some 200) (citation_values m));
          doi_valid = length (filter (\<lambda>c. http_status_doi c = Some 200) (citation_values m))
      in case (if total > 0 then map_sum id (\<lambda>q. q * 100) (py_truediv verified total) else Inr 0) of
           Inl e \<Rightarrow> Inl e
         | Inr pct \<Rightarrow>
             Inr \<lparr>total_citations = total, verified_count = verified,
                  ads_urls_valid = ads_valid, doi_urls_valid = doi_valid,
                  verification_percentage = pct\<rparr>)"


section \<open>Strings: the library functions the codec and the deduplication call\<close>

text \<open>
  \<^verbatim>\<open>str.isspace\<close> on U+0000..U+00FF: TAB, LF, VT, FF, CR, the separators U+001C..U+001F,
  the space, NEL (U+0085) and the no-break space (U+00A0).
\<close>

definition isspace :: "char \<Rightarrow> bool" where
  "isspace c = (c \<in> set [CHR 0x09, CHR 0x0A, CHR 0x0B, CHR 0x0C, CHR 0x0D,
                           CHR 0x1C, CHR 0x1D, CHR 0x1E, CHR 0x1F, CHR 0x20, CHR 0x85, CHR 0xA0])"

text \<open>
  \<^verbatim>\<open>s.lstrip(chars)\<close>, \<^verbatim>\<open>s.rstrip(chars)\<close>, \<^verbatim>\<open>s.strip(chars)\<close>, with the set of characters
  as a predicate; \<^verbatim>\<open>s.strip()\<close> removes white space.
\<close>

definition py_lstrip :: "(char \<Rightarrow> bool) \<Rightarrow> string \<Rightarrow> string" where
  "py_lstrip P s = dropWhile P s"

definition py_rstrip :: "(char \<Rightarrow> bool) \<Rightarrow> string \<Rightarrow> string" where
  "py_rstrip P s = rev (dropWhile P (rev s))"

definition py_strip_chars :: "(char \<Rightarrow> bool) \<Rightarrow> string \<Rightarrow> string" where
  "py_strip_chars P s = py_rstrip P (py_lstrip P s)"

definition py_strip :: "string \<Rightarrow> string" where
  "py_strip s = py_strip_chars isspace s"

text \<open>
  \<^verbatim>\<open>s.startswith(sep)\<close>, and \<^verbatim>\<open>s.split(sep)\<close> for a separator that is not empty (every
  call of the source passes a literal): the text is scanned from the left and cut at each
  occurrence of the separator, the scan going on after it.
\<close>

fun startswith :: "string \<Rightarrow> string \<Rightarrow> bool" where
  "startswith s [] = True"
| "startswith [] (p # ps) = False"
| "startswith (c # s) (p # ps) = (c = p \<and> startswith s ps)"

fun py_split :: "string \<Rightarrow> string \<Rightarrow> string list" where
  "py_split sep [] = [[]]"
| "py_split sep (c # s) =
     (if sep \<noteq> [] \<and> startswith (c # s) sep
      then [] # py_split sep (drop (length sep) (c # s))
      else (case py_split sep s of
              [] \<Rightarrow> [[c]]
            | piece # pieces \<Rightarrow> (c # piece) # pieces))"

text \<open>\<^verbatim>\<open>sep.join(pieces)\<close>.\<close>

fun py_join :: "string \<Rightarrow> string list \<Rightarrow> string" where
  "py_join sep [] = []"
| "py_join sep [x] = x"
| "py_join sep (x # y # ys) = x @ sep @ py_join sep (y # ys)"

text \<open>
  \<^verbatim>\<open>str.lower\<close> on U+0000..U+00FF: the letters A..Z, and U+00C0..U+00DE but for the
  multiplication sign U+00D7, move up by 32.
\<close>

definition lower_char :: "char \<Rightarrow> char" where
  "lower_char c =
     (let n = (of_char c :: nat) in
      if (65 \<le> n \<and> n \<le> 90) \<or> (192 \<le> n \<and> n \<le> 222 \<and> n \<noteq> 215) then char_of (n + 32) else c)"

definition py_lower :: "string \<Rightarrow> string" where
  "py_lower s = map lower_char s"

text \<open>
  \<^verbatim>\<open>str(n)\<close> for an \<^verbatim>\<open>int\<close> (what the f-string writes for \<^verbatim>\<open>{citation.year}\<close>), and
  \<^verbatim>\<open>int(s)\<close> for a \<^verbatim>\<open>str\<close>: white space around, a sign, then decimal digits, where single
  underscores may stand between digits; anything else raises \<^verbatim>\<open>ValueError\<close>, here \<open>None\<close>.
  The white space \<^verbatim>\<open>int\<close> skips is TAB, LF, VT, FF, CR, the space, NEL and the no-break
  space. The interpreter's limit on the number of digits of such a conversion is not modelled.
\<close>

definition digit_char :: "nat \<Rightarrow> char" where
  "digit_char d = char_of (48 + d)"

fun str_nat :: "nat \<Rightarrow> string" where
  "str_nat n = (if n < 10 then [digit_char n] else str_nat (n div 10) @ [digit_char (n mod 10)])"

declare str_nat.simps [simp del]

definition py_str_int :: "int \<Rightarrow> string" where
  "py_str_int n = (if n < 0 then CHR ''-'' # str_nat (nat (- n)) else str_nat (nat n))"

definition is_digit :: "char \<Rightarrow> bool" where
  "is_digit c = (48 \<le> (of_char c :: nat) \<and> (of_char c :: nat) \<le> 57)"

definition digit_val :: "char \<Rightarrow> nat" where
  "digit_val c = of_char c - 48"

fun int_digits :: "nat \<Rightarrow> string \<Rightarrow> nat option" where
  "int_digits acc [] = Some acc"
| "int_digits acc [c] = (if is_digit c then Some (10 * acc + digit_val c) else None)"
| "int_digits acc (c # d # s) =
     (if is_digit c then int_digits (10 * acc + digit_val c) (d # s)
      else if c = CHR ''_'' \<and> is_digit d then int_digits (10 * acc + digit_val d) s
      else None)"

definition int_unsigned :: "string \<Rightarrow> nat option" where
  "int_unsigned s = (case s of [] \<Rightarrow> None
                     | c # r \<Rightarrow> if is_digit c then int_digits (digit_val c) r else None)"

definition int_space :: "char \<Rightarrow> bool" where
  "int_space c = (c \<in> set [CHR 0x09, CHR 0x0A, CHR 0x0B, CHR 0x0C, CHR 0x0D, CHR 0x20,
                             CHR 0x85, CHR 0xA0])"

definition py_int :: "string \<Rightarrow> int option" where
  "py_int v =
     (case py_strip_chars int_space v of
        [] \<Rightarrow> None
      | c # r \<Rightarrow>
          if c = CHR ''-'' then map_option (\<lambda>n. - int n) (int_unsigned r)
          else if c = CHR ''+'' then map_option int (int_unsigned r)
          else map_option int (int_unsigned (c # r)))"

section \<open>Bibliography codec\<close>

subsection \<open>Generation\<close>

text \<open>
  \<^verbatim>\<open>_generate_basic_bibtex\<close>: \<open>bibtex_lines\<close> is the list \<^verbatim>\<open>lines\<close> the function builds, and
  the result joins it with line feeds.
\<close>

definition bibtex_lines :: "Citation \<Rightarrow> string list" where
  "bibtex_lines c =
     (let entry_type = (if truthy (journal c) then ''article'' else ''misc'') in
        [''@'' @ entry_type @ ''{'' @ citekey c @ '','',
         ''  title={'' @ title c @ ''},'',
         ''  author={'' @ py_join '' and '' (authors c) @ ''},'',
         ''  year={'' @ py_str_int (year c) @ ''},'']
        @ (if truthy (journal c) then [''  journal={'' @ the (journal c) @ ''},''] else [])
        @ (if truthy (doi c) then [''  doi={'' @ the (doi c) @ ''},''] else [])
        @ (if truthy (arxiv_id c)
           then [''  eprint={'' @ the (arxiv_id c) @ ''},'', ''  archivePrefix={arXiv},'']
           else [])
        @ (if truthy (ads_bibcode c)
           then [''  adsurl={''
                 @ (if truthy (ads_url c) then the (ads_url c)
                    else ''https://ui.adsabs.harvard.edu/abs/'' @ the (ads_bibcode c))
                 @ ''},'']
           else [])
        @ (if truthy (publisher_url c) then [''  url={'' @ the (publisher_url c) @ ''},''] else [])
        @ [''}''])"

definition generate_basic_bibtex :: "Citation \<Rightarrow> string" where
  "generate_basic_bibtex c = py_join [CHR 0x0A] (bibtex_lines c)"

text \<open>
  What \<^verbatim>\<open>generate_bibtex\<close> writes for one record (without the blank line after it): the
  cached text when there is one, the generated text otherwise; and the whole file, the
  records sorted by year and citekey.
\<close>

definition bibtex_block :: "Citation \<Rightarrow> string" where
  "bibtex_block c = (if bibtex_entry c \<noteq> [] then bibtex_entry c else generate_basic_bibtex c)"

definition generate_bibtex :: "CitationManager \<Rightarrow> string" where
  "generate_bibtex m =
     concat (map (\<lambda>c. bibtex_block c @ [CHR 0x0A, CHR 0x0A])
               (sort_key (\<lambda>x. (year x, citekey x)) (citation_values m)))"

subsection \<open>Parsing\<close>

text \<open>
  The \<^verbatim>\<open>\w\<close> of \<^verbatim>\<open>re\<close> on U+0000..U+00FF: the underscore and the alphanumeric
  characters (digits, letters, the ordinal indicators, the micro sign, the superscript
  digits and the vulgar fractions).
\<close>

definition is_word :: "char \<Rightarrow> bool" where
  "is_word c =
     (let n = (of_char c :: nat) in
      (48 \<le> n \<and> n \<le> 57) \<or> (65 \<le> n \<and> n \<le> 90) \<or> n = 95 \<or> (97 \<le> n \<and> n \<le> 122)
      \<or> n = 170 \<or> n = 178 \<or> n = 179 \<or> n = 181 \<or> n = 185 \<or> n = 186
      \<or> (188 \<le> n \<and> n \<le> 190) \<or> (192 \<le> n \<and> n \<le> 214) \<or> (216 \<le> n \<and> n \<le> 246)
      \<or> 248 \<le> n)"

text \<open>
  \<^verbatim>\<open>re.match(r'@\w+\{([^,]+),', line)\<close>, giving group 1. Both repetitions are followed by a
  character outside their class, so the only way to match takes the longest run of each.
\<close>

definition match_citekey :: "string \<Rightarrow> string option" where
  "match_citekey line =
     (case line of
        [] \<Rightarrow> None
      | c # rest \<Rightarrow>
          if c \<noteq> CHR ''@'' \<or> takeWhile is_word rest = [] then None
          else (case dropWhile is_word rest of
                  [] \<Rightarrow> None
                | b # body \<Rightarrow>
                    if b \<noteq> CHR ''{'' then None
                    else if takeWhile (\<lambda>x. x \<noteq> CHR '','') body = []
                            \<or> dropWhile (\<lambda>x. x \<noteq> CHR '','') body = [] then None
                    else Some (takeWhile (\<lambda>x. x \<noteq> CHR '','') body)))"

text \<open>
  One line of the body: \<^verbatim>\<open>line.strip().rstrip(',')\<close>, and when it holds an equals sign the
  key and the value of \<^verbatim>\<open>line.split('=', 1)\<close>, stripped as the source strips them.
\<close>

definition split_field :: "string \<Rightarrow> (string \<times> string) option" where
  "split_field line0 =
     (let line = py_rstrip (\<lambda>c. c = CHR '','') (py_strip line0) in
      if CHR ''='' \<in> set line then
        Some (py_strip (takeWhile (\<lambda>c. c \<noteq> CHR ''='') line),
              py_strip_chars (\<lambda>c. c = CHR 0x22)
                (py_strip_chars (\<lambda>c. c = CHR ''{'' \<or> c = CHR ''}'')
                   (py_strip (tl (dropWhile (\<lambda>c. c \<noteq> CHR ''='') line)))))
      else None)"

record bib_fields =
  f_title :: string
  f_authors :: "string list"
  f_year :: int
  f_journal :: "string option"
  f_doi :: "string option"
  f_arxiv_id :: "string option"

definition initial_fields :: bib_fields where
  "initial_fields =
     \<lparr>f_title = [], f_authors = [], f_year = 0, f_journal = None, f_doi = None, f_arxiv_id = None\<rparr>"

definition parse_line :: "bib_fields \<Rightarrow> string \<Rightarrow> bib_fields" where
  "parse_line f line =
     (case split_field line of
        None \<Rightarrow> f
      | Some (key, val) \<Rightarrow>
          if key = ''title'' then f\<lparr>f_title := val\<rparr>
          else if key = ''author'' then f\<lparr>f_authors := map py_strip (py_split '' and '' val)\<rparr>
          else if key = ''year'' then (case py_int val of Some n \<Rightarrow> f\<lparr>f_year := n\<rparr> | None \<Rightarrow> f)
          else if key = ''journal'' then f\<lparr>f_journal := Some val\<rparr>
          else if key = ''doi'' then f\<lparr>f_doi := Some val\<rparr>
          else if key = ''eprint'' then f\<lparr>f_arxiv_id := Some val\<rparr>
          else f)"

definition create_citation_from_bibtex :: "string \<Rightarrow> Citation option" where
  "create_citation_from_bibtex entry =
     (case py_split [CHR 0x0A] (py_strip entry) of
        [] \<Rightarrow> None
      | first # body \<Rightarrow>
          (case match_citekey first of
             None \<Rightarrow> None
           | Some key \<Rightarrow>
               (let f = foldl parse_line initial_fields body in
                if key = [] \<or> f_title f = [] \<or> f_authors f = [] \<or> f_year f = 0 then None
                else Some \<lparr>citekey = key, title = f_title f, authors = f_authors f,
                           year = f_year f, journal = f_journal f, ads_bibcode = None,
                           doi = f_doi f, arxiv_id = f_arxiv_id f, ads_url = None,
                           publisher_url = None, last_verified = None,
                           http_status_ads = None, http_status_doi = None,
                           crossref_match = False, ads_match = False, notes_str = [],
                           bibtex_entry = entry\<rparr>)))"

section \<open>Deduplication\<close>

definition citation_completeness :: "Citation \<Rightarrow> nat" where
  "citation_completeness c =
     (if truthy (ads_bibcode c) then 3 else 0)
     + (if truthy (doi c) then 2 else 0)
     + (if truthy (arxiv_id c) then 1 else 0)
     + (if truthy (journal c) then 1 else 0)
     + (if bibtex_entry c \<noteq> [] then 2 else 0)"

text \<open>The key of the loop: \<^verbatim>\<open>(citation.title.lower().strip(), citation.year)\<close>.\<close>

definition dedup_key :: "Citation \<Rightarrow> string \<times> int" where
  "dedup_key c = (py_strip (py_lower (title c)), year c)"

text \<open>\<^verbatim>\<open>del d[k]\<close>: raises \<^verbatim>\<open>KeyError\<close> when the key is not there.\<close>

definition py_del :: "(string \<times> ref) list \<Rightarrow> string \<Rightarrow> py_error + (string \<times> ref) list" where
  "py_del d k = (if k \<in> fst ` set d then Inr (filter (\<lambda>(k', r). k' \<noteq> k) d) else Inl KeyError)"

text \<open>
  \<^verbatim>\<open>deduplicate_citations\<close>. The state of the loop is the dictionary, \<^verbatim>\<open>seen\<close> and
  \<^verbatim>\<open>duplicates\<close>; \<open>dedup_step\<close> is the body of the loop for one item \<^verbatim>\<open>(citekey, citation)\<close>
  of the snapshot \<^verbatim>\<open>list(self.citations.items())\<close>, and \<open>dedup_loop\<close> runs it over the
  snapshot. The subscript \<^verbatim>\<open>self.citations[seen[key]]\<close> raises \<^verbatim>\<open>KeyError\<close> on a missing key.
\<close>

type_synonym dedup_state =
  "(string \<times> ref) list \<times> (string \<times> int \<rightharpoonup> string) \<times> string list"

fun dedup_step ::
  "(ref \<Rightarrow> Citation) \<Rightarrow> string \<times> ref \<Rightarrow> dedup_state \<Rightarrow> py_error + dedup_state" where
  "dedup_step objs (ck, r) (cits, seen, duplicates) =
     (let key = dedup_key (objs r) in
      case seen key of
        Some kept \<Rightarrow>
          (case map_of cits kept of
             None \<Rightarrow> Inl KeyError
           | Some existing \<Rightarrow>
               if citation_completeness (objs r) > citation_completeness (objs existing)
               then (case py_del cits kept of
                       Inl e \<Rightarrow> Inl e
                     | Inr cits' \<Rightarrow> Inr (cits', seen(key \<mapsto> ck), duplicates @ [kept]))
               else (case py_del cits ck of
                       Inl e \<Rightarrow> Inl e
                     | Inr cits' \<Rightarrow> Inr (cits', seen, duplicates @ [ck])))
      | None \<Rightarrow> Inr (cits, seen(key \<mapsto> ck), duplicates))"

fun dedup_loop ::
  "(ref \<Rightarrow> Citation) \<Rightarrow> (string \<times> ref) list \<Rightarrow> dedup_state \<Rightarrow> py_error + dedup_state" where
  "dedup_loop objs [] st = Inr st"
| "dedup_loop objs (item # items) st =
     (case dedup_step objs item st of
        Inl e \<Rightarrow> Inl e
      | Inr st' \<Rightarrow> dedup_loop objs items st')"

definition deduplicate_citations :: "CitationManager \<Rightarrow> py_error + (string list \<times> CitationManager)" where
  "deduplicate_citations m =
     (case dedup_loop (objects m) (citations m) (citations m, Map.empty, []) of
        Inl e \<Rightarrow> Inl e
      | Inr (cits, seen, duplicates) \<Rightarrow> Inr (duplicates, m\<lparr>citations := cits\<rparr>))"


section \<open>Records whose generated text parses back\<close>

text \<open>
  \<^verbatim>\<open>sub in s\<close> and \<^verbatim>\<open>s.endswith(suffix)\<close>, to say what a name may not hold.
\<close>

fun py_contains :: "string \<Rightarrow> string \<Rightarrow> bool" where
  "py_contains [] sub = (sub = [])"
| "py_contains (c # s) sub = (startswith (c # s) sub \<or> py_contains s sub)"

definition py_endswith :: "string \<Rightarrow> string \<Rightarrow> bool" where
  "py_endswith s suffix = startswith (rev s) (rev suffix)"

text \<open>
  A text is bare when it does not begin or end with a brace or a double quote (the
  characters the parser strips from a value), and a single line when it has no line feed.
\<close>

definition bare :: "string \<Rightarrow> bool" where
  "bare s = (s = [] \<or> (hd s \<notin> set [CHR ''{'', CHR ''}'', CHR 0x22]
                       \<and> last s \<notin> set [CHR ''{'', CHR ''}'', CHR 0x22]))"

definition single_line :: "string \<Rightarrow> bool" where
  "single_line s = (CHR 0x0A \<notin> set s)"

fun single_line_opt :: "string option \<Rightarrow> bool" where
  "single_line_opt None = True"
| "single_line_opt (Some s) = single_line s"

text \<open>
  The records the parser reads back from their generated text: the required fields are
  there; the citekey has no comma; title and author names are bare; an author name has no
  white space at its ends (the parser strips it), does not hold \<^verbatim>\<open>" and "\<close> and does not end
  in \<^verbatim>\<open>" and"\<close> (the parser splits the author text there); and no text field has a line feed
  (the parser reads line by line).
\<close>

definition roundtrip_safe :: "Citation \<Rightarrow> bool" where
  "roundtrip_safe c =
     (citekey c \<noteq> [] \<and> CHR '','' \<notin> set (citekey c) \<and> single_line (citekey c)
      \<and> title c \<noteq> [] \<and> bare (title c) \<and> single_line (title c)
      \<and> authors c \<noteq> []
      \<and> list_all (\<lambda>a. py_strip a = a \<and> bare a \<and> single_line a
                       \<and> \<not> py_contains a '' and '' \<and> \<not> py_endswith a '' and'') (authors c)
      \<and> year c \<noteq> 0
      \<and> single_line_opt (journal c) \<and> single_line_opt (doi c) \<and> single_line_opt (arxiv_id c)
      \<and> single_line_opt (ads_bibcode c) \<and> single_line_opt (ads_url c)
      \<and> single_line_opt (publisher_url c))"

text \<open>
  Used in the proofs only: the lines \<^verbatim>\<open>_generate_basic_bibtex\<close> writes after the year, and
  the lines of a body that leave title, authors and year as they are.
\<close>

definition optional_lines :: "Citation \<Rightarrow> string list" where
  "optional_lines c =
        (if truthy (journal c) then [''  journal={'' @ the (journal c) @ ''},''] else [])
        @ (if truthy (doi c) then [''  doi={'' @ the (doi c) @ ''},''] else [])
        @ (if truthy (arxiv_id c)
           then [''  eprint={'' @ the (arxiv_id c) @ ''},'', ''  archivePrefix={arXiv},'']
           else [])
        @ (if truthy (ads_bibcode c)
           then [''  adsurl={''
                 @ (if truthy (ads_url c) then the (ads_url c)
                    else ''https://ui.adsabs.harvard.edu/abs/'' @ the (ads_bibcode c))
                 @ ''},'']
           else [])
        @ (if truthy (publisher_url c) then [''  url={'' @ the (publisher_url c) @ ''},''] else [])
        @ [''}'']"

definition other_line :: "string \<Rightarrow> bool" where
  "other_line l = (case split_field l of
                     None \<Rightarrow> True
                   | Some (k, w) \<Rightarrow> k \<noteq> ''title'' \<and> k \<noteq> ''author'' \<and> k \<noteq> ''year'')"


section \<open>The invariant of the deduplication loop\<close>

text \<open>
  Used in the proofs only. After the items \<open>ps\<close> of the snapshot \<open>S\<close>, the dictionary is
  \<open>S\<close> without the citekeys in \<^verbatim>\<open>duplicates\<close>; \<^verbatim>\<open>seen\<close> has a key exactly when an item
  seen so far has it, and then it names the first of the items with that key whose score is
  the highest among them, every other one of them being in \<^verbatim>\<open>duplicates\<close>.
\<close>

definition item_key :: "(ref \<Rightarrow> Citation) \<Rightarrow> string \<times> ref \<Rightarrow> string \<times> int" where
  "item_key objs it = dedup_key (objs (snd it))"

definition item_score :: "(ref \<Rightarrow> Citation) \<Rightarrow> string \<times> ref \<Rightarrow> nat" where
  "item_score objs it = citation_completeness (objs (snd it))"

definition kept_ok ::
  "(ref \<Rightarrow> Citation) \<Rightarrow> (string \<times> ref) list \<Rightarrow> string list \<Rightarrow> string \<times> int \<Rightarrow> string \<Rightarrow> bool" where
  "kept_ok objs ps dups kk k =
     (\<exists>xs r ys. ps = xs @ (k, r) # ys \<and> dedup_key (objs r) = kk \<and> k \<notin> set dups
        \<and> (\<forall>it \<in> set xs. item_key objs it = kk \<longrightarrow>
               fst it \<in> set dups \<and> item_score objs it < citation_completeness (objs r))
        \<and> (\<forall>it \<in> set ys. item_key objs it = kk \<longrightarrow>
               fst it \<in> set dups \<and> item_score objs it \<le> citation_completeness (objs r)))"

definition dedup_inv ::
  "(ref \<Rightarrow> Citation) \<Rightarrow> (string \<times> ref) list \<Rightarrow> (string \<times> ref) list \<Rightarrow> dedup_state \<Rightarrow> bool" where
  "dedup_inv objs S ps st =
     (case st of (cits, seen, dups) \<Rightarrow>
        cits = filter (\<lambda>it. fst it \<notin> set dups) S
        \<and> set dups \<subseteq> fst ` set ps
        \<and> (\<forall>kk. case seen kk of
                   None \<Rightarrow> kk \<notin> item_key objs ` set ps
                 | Some k \<Rightarrow> kept_ok objs ps dups kk k))"

section \<open>The spec's term for a successful response\<close>


section \<open>Example data\<close>

text \<open>The record of the specification's scenario, and small stores built from it.\<close>

definition tully1977new :: Citation where
  "tully1977new =
     \<lparr>citekey = ''tully1977new'',
      title = ''A New Method of Determining Distances to Galaxies'',
      authors = [''R. Brent Tully'', ''J. Richard Fisher''], year = 1977,
      journal = Some ''Astronomy and Astrophysics'',
      ads_bibcode = Some ''1977A&A....54..661T'',
      doi = None, arxiv_id = None, ads_url = None, publisher_url = None, last_verified = None,
      http_status_ads = None, http_status_doi = None, crossref_match = False,
      ads_match = False, notes_str = [], bibtex_entry = []\<rparr>"

definition doi_manager :: CitationManager where
  "doi_manager =
     \<lparr>citations = [(''tully1977new'', 0), (''other'', 1)],
      objects = (\<lambda>r. if r = 0 then tully1977new\<lparr>doi := Some ''10.1000/x'', publisher_url := Some ''http://old''\<rparr>
                      else tully1977new\<lparr>citekey := ''other'', year := 1978\<rparr>),
      max_retries = 3\<rparr>"

definition bad_year_entry :: string where
  "bad_year_entry = py_join [CHR 0x0A]
     [''@misc{key2020,'', ''  title={A Title},'', ''  author={A. Author},'', ''  year={MMXX},'', ''}'']"

definition dup_manager :: CitationManager where
  "dup_manager =
     \<lparr>citations = [(''a'', 0), (''b'', 1), (''c'', 2)],
      objects = (\<lambda>r. if r = 0 then tully1977new\<lparr>citekey := ''a'', journal := None\<rparr>
                      else if r = 1 then tully1977new\<lparr>citekey := ''b''\<rparr>
                      else tully1977new\<lparr>citekey := ''c'',
                             title := ''  a new method of determining distances to GALAXIES ''\<rparr>),
      max_retries = 3\<rparr>"

section \<open>Verification report on an empty store\<close>

text \<open>
  C10. \<^verbatim>\<open>get_verification_report\<close> on a store with no record returns the report with
  \<^verbatim>\<open>total_citations\<close>, \<^verbatim>\<open>verified_count\<close>, \<^verbatim>\<open>ads_urls_valid\<close>, \<^verbatim>\<open>doi_urls_valid\<close> and
  \<^verbatim>\<open>verification_percentage\<close> all 0; and on no store at all does the division raise, the
  test on the total guarding it.
\<close>

theorem report_empty_store:
  "get_verification_report (m\<lparr>citations := []\<rparr>) =
     Inr \<lparr>total_citations = 0, verified_count = 0, ads_urls_valid = 0, doi_urls_valid = 0,
          verification_percentage = 0\<rparr>
   \<and> (\<exists>rep. get_verification_report m = Inr rep)"
  by (simp add: get_verification_report_def citation_values_def py_truediv_def Let_def)

section \<open>The retry loop of verify_url\<close>












section \<open>verify_citation: what it writes and what it leaves\<close>

lemma verify_ads_frame:
  "verify_ads mr net calls c = (v, c', calls') \<Longrightarrow> \<exists>a. c' = c\<lparr>http_status_ads := a\<rparr>"
  unfolding verify_ads_def
  by (cases "truthy (ads_url c)") (auto split: prod.splits intro: exI[of _ "http_status_ads c"])

lemma verify_doi_frame:
  "verify_doi mr net calls c = (v, c', calls') \<Longrightarrow>
     \<exists>d p. c' = c\<lparr>http_status_doi := d, publisher_url := p\<rparr>"
  unfolding verify_doi_def Let_def
  apply (cases "truthy (doi c)")
   apply (auto split: prod.splits)
  apply (rule exI[of _ "http_status_doi c"], rule exI[of _ "publisher_url c"])
  apply simp
  done

lemma verify_doi_publisher:
  "verify_doi mr net calls c = (v, c', calls') \<Longrightarrow> truthy (doi c) \<Longrightarrow>
     publisher_url c' = Some (''https://doi.org/'' @ the (doi c))"
  unfolding verify_doi_def Let_def by (auto split: prod.splits)

lemma verify_citation_found:
  assumes "map_of (citations m) key = Some r"
  obtains v1 c1 n1 v2 c2 n2 where
    "verify_ads (max_retries m) net calls (objects m r) = (v1, c1, n1)"
    "verify_doi (max_retries m) net n1 c1 = (v2, c2, n2)"
    "verify_citation m net now calls key =
       (Results v1 v2 (title c2 \<noteq> [] \<and> authors c2 \<noteq> [] \<and> year c2 \<noteq> 0 \<and> citekey c2 \<noteq> []),
        m\<lparr>objects := (objects m)(r := c2\<lparr>last_verified := Some now\<rparr>)\<rparr>, n2)"
proof -
  obtain v1 c1 n1 where a: "verify_ads (max_retries m) net calls (objects m r) = (v1, c1, n1)"
    by (metis prod_cases3)
  obtain v2 c2 n2 where b: "verify_doi (max_retries m) net n1 c1 = (v2, c2, n2)"
    by (metis prod_cases3)
  show thesis
    by (rule that[OF a b]) (simp add: verify_citation_def assms a b Let_def)
qed

lemma verify_citation_object:
  assumes "map_of (citations m) key = Some r"
    and "verify_citation m net now calls key = (rep, m', calls')"
  obtains a d p where
    "m' = m\<lparr>objects := (objects m)(r := (objects m r)\<lparr>http_status_ads := a, http_status_doi := d,
               publisher_url := p, last_verified := Some now\<rparr>)\<rparr>"
    "truthy (doi (objects m r)) \<longrightarrow> p = Some (''https://doi.org/'' @ the (doi (objects m r)))"
proof -
  obtain v1 c1 n1 v2 c2 n2 where
    a: "verify_ads (max_retries m) net calls (objects m r) = (v1, c1, n1)" and
    b: "verify_doi (max_retries m) net n1 c1 = (v2, c2, n2)" and
    c: "verify_citation m net now calls key =
       (Results v1 v2 (title c2 \<noteq> [] \<and> authors c2 \<noteq> [] \<and> year c2 \<noteq> 0 \<and> citekey c2 \<noteq> []),
        m\<lparr>objects := (objects m)(r := c2\<lparr>last_verified := Some now\<rparr>)\<rparr>, n2)"
    by (rule verify_citation_found[OF assms(1)])
  obtain a' where c1: "c1 = (objects m r)\<lparr>http_status_ads := a'\<rparr>"
    using verify_ads_frame[OF a] by blast
  obtain d' p' where c2: "c2 = c1\<lparr>http_status_doi := d', publisher_url := p'\<rparr>"
    using verify_doi_frame[OF b] by blast
  have d1: "doi c1 = doi (objects m r)" by (simp add: c1)
  have p: "truthy (doi (objects m r)) \<longrightarrow>
      p' = Some (''https://doi.org/'' @ the (doi (objects m r)))"
    using verify_doi_publisher[OF b] d1 by (simp add: c2)
  have e: "c2\<lparr>last_verified := Some now\<rparr> =
      (objects m r)\<lparr>http_status_ads := a', http_status_doi := d',
                     publisher_url := p', last_verified := Some now\<rparr>"
    by (simp add: c1 c2)
  have m': "m' = m\<lparr>objects := (objects m)(r := (objects m r)\<lparr>http_status_ads := a',
               http_status_doi := d', publisher_url := p', last_verified := Some now\<rparr>)\<rparr>"
    using assms(2) c e by simp
  show thesis by (rule that[OF m' p])
qed



text \<open>
  C9. \<^verbatim>\<open>verify_citation\<close> leaves the dictionary as it is. When the citekey is there, every
  object but the one it denotes is unchanged, and in that one the fields \<^verbatim>\<open>citekey\<close>,
  \<^verbatim>\<open>title\<close>, \<^verbatim>\<open>authors\<close>, \<^verbatim>\<open>year\<close>, \<^verbatim>\<open>journal\<close>, \<^verbatim>\<open>doi\<close>, \<^verbatim>\<open>arxiv_id\<close>, \<^verbatim>\<open>ads_bibcode\<close>,
  \<^verbatim>\<open>ads_url\<close>, \<^verbatim>\<open>crossref_match\<close>, \<^verbatim>\<open>ads_match\<close>, \<^verbatim>\<open>notes\<close> and \<^verbatim>\<open>bibtex_entry\<close> are
  unchanged (only \<^verbatim>\<open>http_status_ads\<close>, \<^verbatim>\<open>http_status_doi\<close>, \<^verbatim>\<open>publisher_url\<close> and
  \<^verbatim>\<open>last_verified\<close> may differ). When the citekey is not there, the report is the not-found
  one and nothing changes.
\<close>

theorem verify_citation_frame:
  assumes "verify_citation m net now calls key = (rep, m', calls')"
  shows "citations m' = citations m \<and> max_retries m' = max_retries m
   \<and> (case map_of (citations m) key of
        None \<Rightarrow> rep = Error ''Citation not found'' \<and> m' = m \<and> calls' = calls
      | Some r \<Rightarrow>
          (\<forall>r'. r' \<noteq> r \<longrightarrow> objects m' r' = objects m r')
          \<and> citekey (objects m' r) = citekey (objects m r)
          \<and> title (objects m' r) = title (objects m r)
          \<and> authors (objects m' r) = authors (objects m r)
          \<and> year (objects m' r) = year (objects m r)
          \<and> journal (objects m' r) = journal (objects m r)
          \<and> doi (objects m' r) = doi (objects m r)
          \<and> arxiv_id (objects m' r) = arxiv_id (objects m r)
          \<and> ads_bibcode (objects m' r) = ads_bibcode (objects m r)
          \<and> ads_url (objects m' r) = ads_url (objects m r)
          \<and> crossref_match (objects m' r) = crossref_match (objects m r)
          \<and> ads_match (objects m' r) = ads_match (objects m r)
          \<and> notes_str (objects m' r) = notes_str (objects m r)
          \<and> bibtex_entry (objects m' r) = bibtex_entry (objects m r))"
proof (cases "map_of (citations m) key")
  case None
  then show ?thesis using assms by (auto simp add: verify_citation_def)
next
  case (Some r)
  obtain a d p where
    m': "m' = m\<lparr>objects := (objects m)(r := (objects m r)\<lparr>http_status_ads := a,
               http_status_doi := d, publisher_url := p, last_verified := Some now\<rparr>)\<rparr>"
    by (rule verify_citation_object[OF Some assms])
  show ?thesis by (simp add: Some m')
qed

theorem verify_citation_frame_witness:
  "objects (fst (snd (verify_citation doi_manager (\<lambda>n u. Response 200)
        ''2025-01-01T00:00:00'' 0 ''tully1977new''))) 1 = objects doi_manager 1
   \<and> title (objects (fst (snd (verify_citation doi_manager (\<lambda>n u. Response 200)
        ''2025-01-01T00:00:00'' 0 ''tully1977new''))) 0)
       = ''A New Method of Determining Distances to Galaxies''"
proof -
  have k0: "map_of (citations doi_manager) ''tully1977new'' = Some 0"
    by (simp add: doi_manager_def)
  have t0: "title (objects doi_manager 0) = ''A New Method of Determining Distances to Galaxies''"
    by (simp add: doi_manager_def tully1977new_def)
  show ?thesis
    using verify_citation_frame[of doi_manager "\<lambda>n u. Response 200" "''2025-01-01T00:00:00''" 0
        "''tully1977new''"
        "fst (verify_citation doi_manager (\<lambda>n u. Response 200) ''2025-01-01T00:00:00'' 0 ''tully1977new'')"
        "fst (snd (verify_citation doi_manager (\<lambda>n u. Response 200) ''2025-01-01T00:00:00'' 0 ''tully1977new''))"
        "snd (snd (verify_citation doi_manager (\<lambda>n u. Response 200) ''2025-01-01T00:00:00'' 0 ''tully1977new''))"]
    by (simp add: k0 t0)
qed

section \<open>Deduplication: the loop keeps the best record of each key\<close>

lemma py_del_filter: "py_del d k = (if k \<in> fst ` set d then Inr (filter (\<lambda>it. fst it \<noteq> k) d) else Inl KeyError)"
  by (simp add: py_del_def case_prod_unfold)

lemma kept_ok_append_other:
  assumes "kept_ok objs ps dups kk k" "item_key objs it \<noteq> kk" "set dups \<subseteq> set dups'" "k \<notin> set dups'"
  shows "kept_ok objs (ps @ [it]) dups' kk k"
proof -
  obtain xs r ys where d: "ps = xs @ (k, r) # ys" "dedup_key (objs r) = kk"
    and b: "\<forall>it \<in> set xs. item_key objs it = kk \<longrightarrow>
               fst it \<in> set dups \<and> item_score objs it < citation_completeness (objs r)"
    and a: "\<forall>it \<in> set ys. item_key objs it = kk \<longrightarrow>
               fst it \<in> set dups \<and> item_score objs it \<le> citation_completeness (objs r)"
    using assms(1) unfolding kept_ok_def by blast
  have d': "ps @ [it] = xs @ (k, r) # (ys @ [it])" using d(1) by simp
  have b': "\<forall>it \<in> set xs. item_key objs it = kk \<longrightarrow>
               fst it \<in> set dups' \<and> item_score objs it < citation_completeness (objs r)"
    using b assms(3) by blast
  have a': "\<forall>i \<in> set (ys @ [it]). item_key objs i = kk \<longrightarrow>
               fst i \<in> set dups' \<and> item_score objs i \<le> citation_completeness (objs r)"
    using a assms(2,3) by auto
  show ?thesis unfolding kept_ok_def using d' d(2) assms(4) b' a' by blast
qed

lemma kept_ok_append_loser:
  assumes "kept_ok objs ps dups kk k" "(k, r0) \<in> set ps" "distinct (map fst ps)"
    "item_score objs it \<le> citation_completeness (objs r0)" "fst it \<noteq> k"
  shows "kept_ok objs (ps @ [it]) (dups @ [fst it]) kk k"
proof -
  obtain xs r ys where d: "ps = xs @ (k, r) # ys" "dedup_key (objs r) = kk" "k \<notin> set dups"
    and b: "\<forall>it \<in> set xs. item_key objs it = kk \<longrightarrow>
               fst it \<in> set dups \<and> item_score objs it < citation_completeness (objs r)"
    and a: "\<forall>it \<in> set ys. item_key objs it = kk \<longrightarrow>
               fst it \<in> set dups \<and> item_score objs it \<le> citation_completeness (objs r)"
    using assms(1) unfolding kept_ok_def by blast
  have "(k, r) \<in> set ps" using d(1) by simp
  then have r: "r0 = r" using assms(2,3) by (meson eq_key_imp_eq_value)
  have d': "ps @ [it] = xs @ (k, r) # (ys @ [it])" using d(1) by simp
  have k': "k \<notin> set (dups @ [fst it])" using d(3) assms(5) by auto
  have b': "\<forall>i \<in> set xs. item_key objs i = kk \<longrightarrow>
               fst i \<in> set (dups @ [fst it]) \<and> item_score objs i < citation_completeness (objs r)"
    using b by auto
  have a': "\<forall>i \<in> set (ys @ [it]). item_key objs i = kk \<longrightarrow>
               fst i \<in> set (dups @ [fst it]) \<and> item_score objs i \<le> citation_completeness (objs r)"
    using a assms(4) r by auto
  show ?thesis unfolding kept_ok_def using d' d(2) k' b' a' by blast
qed

lemma kept_ok_new:
  assumes "kk \<notin> item_key objs ` set ps" "k \<notin> set dups" "dedup_key (objs r) = kk"
  shows "kept_ok objs (ps @ [(k, r)]) dups kk k"
proof -
  have b: "\<forall>it \<in> set ps. item_key objs it = kk \<longrightarrow>
               fst it \<in> set dups \<and> item_score objs it < citation_completeness (objs r)"
    using assms(1) by auto
  have a: "\<forall>it \<in> set []. item_key objs it = kk \<longrightarrow>
               fst it \<in> set dups \<and> item_score objs it \<le> citation_completeness (objs r)"
    by simp
  have d: "ps @ [(k, r)] = ps @ (k, r) # []" by simp
  show ?thesis unfolding kept_ok_def using d assms(2,3) b a by blast
qed

lemma kept_ok_winner:
  assumes "kept_ok objs ps dups kk k0" "(k0, r0) \<in> set ps" "distinct (map fst ps)"
    "citation_completeness (objs r0) < citation_completeness (objs r)"
    "dedup_key (objs r) = kk" "k \<notin> set dups" "k \<noteq> k0"
  shows "kept_ok objs (ps @ [(k, r)]) (dups @ [k0]) kk k"
proof -
  obtain xs r1 ys where d: "ps = xs @ (k0, r1) # ys" "dedup_key (objs r1) = kk" "k0 \<notin> set dups"
    and b: "\<forall>it \<in> set xs. item_key objs it = kk \<longrightarrow>
               fst it \<in> set dups \<and> item_score objs it < citation_completeness (objs r1)"
    and a: "\<forall>it \<in> set ys. item_key objs it = kk \<longrightarrow>
               fst it \<in> set dups \<and> item_score objs it \<le> citation_completeness (objs r1)"
    using assms(1) unfolding kept_ok_def by blast
  have "(k0, r1) \<in> set ps" using d(1) by simp
  then have r: "r0 = r1" using assms(2,3) by (meson eq_key_imp_eq_value)
  have all: "\<forall>it \<in> set ps. item_key objs it = kk \<longrightarrow>
               fst it \<in> set (dups @ [k0]) \<and> item_score objs it < citation_completeness (objs r)"
  proof (intro ballI impI)
    fix it assume it: "it \<in> set ps" "item_key objs it = kk"
    then consider "it \<in> set xs" | "it = (k0, r1)" | "it \<in> set ys" using d(1) by auto
    then show "fst it \<in> set (dups @ [k0]) \<and> item_score objs it < citation_completeness (objs r)"
    proof cases
      case 1
      then show ?thesis using b it(2) assms(4) r by fastforce
    next
      case 2
      then show ?thesis using assms(4) r by (simp add: item_score_def)
    next
      case 3
      then show ?thesis using a it(2) assms(4) r by fastforce
    qed
  qed
  have a': "\<forall>it \<in> set []. item_key objs it = kk \<longrightarrow>
               fst it \<in> set (dups @ [k0]) \<and> item_score objs it \<le> citation_completeness (objs r)"
    by simp
  have k': "k \<notin> set (dups @ [k0])" using assms(6,7) by simp
  have d': "ps @ [(k, r)] = ps @ (k, r) # []" by simp
  show ?thesis unfolding kept_ok_def using d' assms(5) k' all a' by blast
qed

lemma dedup_inv_I:
  assumes "cits = filter (\<lambda>it. fst it \<notin> set dups) S" "set dups \<subseteq> fst ` set ps"
    "\<And>kk. seen kk = None \<Longrightarrow> kk \<notin> item_key objs ` set ps"
    "\<And>kk k. seen kk = Some k \<Longrightarrow> kept_ok objs ps dups kk k"
  shows "dedup_inv objs S ps (cits, seen, dups)"
  unfolding dedup_inv_def using assms by (auto split: option.splits)

lemma dedup_inv_D:
  assumes "dedup_inv objs S ps (cits, seen, dups)"
  shows "cits = filter (\<lambda>it. fst it \<notin> set dups) S" "set dups \<subseteq> fst ` set ps"
    "\<And>kk. seen kk = None \<Longrightarrow> kk \<notin> item_key objs ` set ps"
    "\<And>kk k. seen kk = Some k \<Longrightarrow> kept_ok objs ps dups kk k"
proof -
  show "cits = filter (\<lambda>it. fst it \<notin> set dups) S" "set dups \<subseteq> fst ` set ps"
    using assms unfolding dedup_inv_def by auto
  have a: "\<forall>kk. case seen kk of None \<Rightarrow> kk \<notin> item_key objs ` set ps
                 | Some k \<Rightarrow> kept_ok objs ps dups kk k"
    using assms unfolding dedup_inv_def by simp
  show "\<And>kk. seen kk = None \<Longrightarrow> kk \<notin> item_key objs ` set ps"
    using a by (metis option.simps(4))
  show "\<And>kk k. seen kk = Some k \<Longrightarrow> kept_ok objs ps dups kk k"
    using a by (metis option.simps(5))
qed

lemma kept_ok_mem:
  assumes "kept_ok objs ps dups kk k"
  obtains r where "(k, r) \<in> set ps" "dedup_key (objs r) = kk" "k \<notin> set dups"
proof -
  obtain xs r ys where "ps = xs @ (k, r) # ys" "dedup_key (objs r) = kk" "k \<notin> set dups"
    using assms unfolding kept_ok_def by blast
  then show thesis using that[of r] by simp
qed

lemma kept_ok_others:
  assumes "kept_ok objs ps dups kk k" "it \<in> set ps" "item_key objs it = kk" "fst it \<noteq> k"
  shows "fst it \<in> set dups"
  using assms unfolding kept_ok_def by auto

lemma dedup_step_inv:
  assumes inv: "dedup_inv objs S ps (cits, seen, dups)"
    and S: "S = ps @ (ck, r) # rest" and dist: "distinct (map fst S)"
  shows "\<exists>st'. dedup_step objs (ck, r) (cits, seen, dups) = Inr st'
               \<and> dedup_inv objs S (ps @ [(ck, r)]) st'"
proof -
  let ?kk = "dedup_key (objs r)"
  let ?ps' = "ps @ [(ck, r)]"
  have cits: "cits = filter (\<lambda>it. fst it \<notin> set dups) S" and sub: "set dups \<subseteq> fst ` set ps"
    using dedup_inv_D(1,2)[OF inv] by auto
  have distps: "distinct (map fst ps)" using dist S by simp
  have ck_ps: "ck \<notin> fst ` set ps" using dist S by auto
  have ck_dups: "ck \<notin> set dups" using ck_ps sub by auto
  have ck_cits: "ck \<in> fst ` set cits" using ck_dups S cits by force
  have ikey: "item_key objs (ck, r) = ?kk" by (simp add: item_key_def)
  show ?thesis
  proof (cases "seen ?kk")
    case None
    have step: "dedup_step objs (ck, r) (cits, seen, dups) = Inr (cits, seen(?kk \<mapsto> ck), dups)"
      using None by simp
    have "dedup_inv objs S ?ps' (cits, seen(?kk \<mapsto> ck), dups)"
    proof (rule dedup_inv_I)
      show "cits = filter (\<lambda>it. fst it \<notin> set dups) S" by (rule cits)
      show "set dups \<subseteq> fst ` set ?ps'" using sub by auto
    next
      fix kk assume "(seen(?kk \<mapsto> ck)) kk = None"
      then have "kk \<noteq> ?kk" "seen kk = None" by (auto split: if_splits)
      then show "kk \<notin> item_key objs ` set ?ps'"
        using dedup_inv_D(3)[OF inv, of kk] ikey by auto
    next
      fix kk k assume s: "(seen(?kk \<mapsto> ck)) kk = Some k"
      show "kept_ok objs ?ps' dups kk k"
      proof (cases "kk = ?kk")
        case True
        then have "k = ck" using s by simp
        then show ?thesis
          using kept_ok_new[OF dedup_inv_D(3)[OF inv None] ck_dups refl] True by simp
      next
        case False
        then have sk: "seen kk = Some k" using s by simp
        have ko: "kept_ok objs ps dups kk k" by (rule dedup_inv_D(4)[OF inv sk])
        have "k \<notin> set dups" using ko by (rule kept_ok_mem)
        then show ?thesis
          using kept_ok_append_other[OF ko _ subset_refl] False ikey by metis
      qed
    qed
    then show ?thesis using step by blast
  next
    case (Some k0)
    have ko: "kept_ok objs ps dups ?kk k0" by (rule dedup_inv_D(4)[OF inv Some])
    obtain r0 where r0: "(k0, r0) \<in> set ps" "dedup_key (objs r0) = ?kk" "k0 \<notin> set dups"
      using ko by (rule kept_ok_mem)
    have k0S: "(k0, r0) \<in> set S" using r0(1) S by simp
    have k0c: "(k0, r0) \<in> set cits" using k0S r0(3) cits by simp
    have distc: "distinct (map fst cits)" using dist cits by (simp add: distinct_map_filter)
    have look: "map_of cits k0 = Some r0" using k0c distc by simp
    have k0ck: "ck \<noteq> k0" using r0(1) ck_ps by force
    have k0in: "k0 \<in> fst ` set cits" using k0c by force
    show ?thesis
    proof (cases "citation_completeness (objs r) > citation_completeness (objs r0)")
      case True
      let ?st = "(filter (\<lambda>it. fst it \<noteq> k0) cits, seen(?kk \<mapsto> ck), dups @ [k0])"
      have step: "dedup_step objs (ck, r) (cits, seen, dups) = Inr ?st"
        using Some look True k0in by (simp add: py_del_filter)
      have "dedup_inv objs S ?ps' ?st"
      proof (rule dedup_inv_I)
        show "filter (\<lambda>it. fst it \<noteq> k0) cits = filter (\<lambda>it. fst it \<notin> set (dups @ [k0])) S"
          unfolding cits by (auto intro: filter_cong)
        show "set (dups @ [k0]) \<subseteq> fst ` set ?ps'" using sub r0(1) by force
      next
        fix kk assume "(seen(?kk \<mapsto> ck)) kk = None"
        then have "kk \<noteq> ?kk" "seen kk = None" by (auto split: if_splits)
        then show "kk \<notin> item_key objs ` set ?ps'"
          using dedup_inv_D(3)[OF inv, of kk] ikey by auto
      next
        fix kk k assume s: "(seen(?kk \<mapsto> ck)) kk = Some k"
        show "kept_ok objs ?ps' (dups @ [k0]) kk k"
        proof (cases "kk = ?kk")
          case True
          then have "k = ck" using s by simp
          then show ?thesis
            using kept_ok_winner[OF ko r0(1) distps \<open>citation_completeness (objs r) > citation_completeness (objs r0)\<close> refl ck_dups k0ck] True
            by simp
        next
          case False
          then have sk: "seen kk = Some k" using s by simp
          have ko': "kept_ok objs ps dups kk k" by (rule dedup_inv_D(4)[OF inv sk])
          obtain r1 where r1: "(k, r1) \<in> set ps" "dedup_key (objs r1) = kk" "k \<notin> set dups"
            using ko' by (rule kept_ok_mem)
          have "k \<noteq> k0"
          proof
            assume "k = k0"
            then have "r1 = r0" using r1(1) r0(1) distps by (meson eq_key_imp_eq_value)
            then show False using r1(2) r0(2) False by simp
          qed
          then have "k \<notin> set (dups @ [k0])" using r1(3) by simp
          then show ?thesis
            using kept_ok_append_other[OF ko', of "(ck, r)" "dups @ [k0]"] False ikey by auto
        qed
      qed
      then show ?thesis using step by blast
    next
      case False
      let ?st = "(filter (\<lambda>it. fst it \<noteq> ck) cits, seen, dups @ [ck])"
      have step: "dedup_step objs (ck, r) (cits, seen, dups) = Inr ?st"
        using Some look False ck_cits by (simp add: py_del_filter)
      have le: "item_score objs (ck, r) \<le> citation_completeness (objs r0)"
        using False by (simp add: item_score_def)
      have "dedup_inv objs S ?ps' ?st"
      proof (rule dedup_inv_I)
        show "filter (\<lambda>it. fst it \<noteq> ck) cits = filter (\<lambda>it. fst it \<notin> set (dups @ [ck])) S"
          unfolding cits by (auto intro: filter_cong)
        show "set (dups @ [ck]) \<subseteq> fst ` set ?ps'" using sub by force
      next
        fix kk assume n: "seen kk = None"
        then have "kk \<noteq> ?kk" using Some by auto
        then show "kk \<notin> item_key objs ` set ?ps'"
          using dedup_inv_D(3)[OF inv n] ikey by auto
      next
        fix kk k assume sk: "seen kk = Some k"
        have ko': "kept_ok objs ps dups kk k" by (rule dedup_inv_D(4)[OF inv sk])
        obtain r1 where r1: "(k, r1) \<in> set ps" "dedup_key (objs r1) = kk" "k \<notin> set dups"
          using ko' by (rule kept_ok_mem)
        have kck: "ck \<noteq> k" using r1(1) ck_ps by force
        show "kept_ok objs ?ps' (dups @ [ck]) kk k"
        proof (cases "kk = ?kk")
          case True
          then have "k = k0" using sk Some by simp
          then show ?thesis
            using kept_ok_append_loser[OF ko r0(1) distps le] k0ck True by simp
        next
          case False
          have "k \<notin> set (dups @ [ck])" using r1(3) kck by simp
          then show ?thesis
            using kept_ok_append_other[OF ko', of "(ck, r)" "dups @ [ck]"] False ikey by auto
        qed
      qed
      then show ?thesis using step by blast
    qed
  qed
qed

lemma dedup_loop_inv:
  assumes "dedup_inv objs S ps st" "S = ps @ items" "distinct (map fst S)"
  shows "\<exists>st'. dedup_loop objs items st = Inr st' \<and> dedup_inv objs S S st'"
  using assms
proof (induction items arbitrary: ps st)
  case Nil
  then show ?case by simp
next
  case (Cons item items)
  obtain ck r where item: "item = (ck, r)" by (cases item)
  obtain cits seen dups where st: "st = (cits, seen, dups)" by (cases st)
  obtain st' where s: "dedup_step objs (ck, r) (cits, seen, dups) = Inr st'"
    "dedup_inv objs S (ps @ [(ck, r)]) st'"
    using dedup_step_inv[of objs S ps cits seen dups ck r items] Cons.prems item st by auto
  have "S = (ps @ [(ck, r)]) @ items" using Cons.prems(2) item by simp
  then obtain st'' where "dedup_loop objs items st' = Inr st''" "dedup_inv objs S S st''"
    using Cons.IH[OF s(2) _ Cons.prems(3)] by blast
  then show ?case using s(1) item st by simp
qed

lemma dedup_inv_init: "dedup_inv objs S [] (S, Map.empty, [])"
  by (simp add: dedup_inv_def)

lemma dedup_final:
  assumes "distinct (map fst S)"
  obtains seen dups where
    "dedup_loop objs S (S, Map.empty, []) = Inr (filter (\<lambda>it. fst it \<notin> set dups) S, seen, dups)"
    "dedup_inv objs S S (filter (\<lambda>it. fst it \<notin> set dups) S, seen, dups)"
proof -
  obtain st' where a: "dedup_loop objs S (S, Map.empty, []) = Inr st'" "dedup_inv objs S S st'"
    using dedup_loop_inv[of objs S "[]" "(S, Map.empty, [])" S] dedup_inv_init assms by auto
  obtain cits seen dups where st: "st' = (cits, seen, dups)" by (cases st')
  have c: "cits = filter (\<lambda>it. fst it \<notin> set dups) S"
    using dedup_inv_D(1)[OF a(2)[unfolded st]] .
  show thesis using that[of dups seen] a st c by simp
qed




lemma dedup_inv_seen:
  assumes "dedup_inv objs S S (cits, seen, dups)" "it \<in> set S"
  obtains k where "seen (item_key objs it) = Some k" "kept_ok objs S dups (item_key objs it) k"
proof (cases "seen (item_key objs it)")
  case None
  then show ?thesis using dedup_inv_D(3)[OF assms(1) None] assms(2) by auto
next
  case (Some k)
  then show ?thesis using dedup_inv_D(4)[OF assms(1) Some] that by blast
qed

lemma dedup_loop_distinct:
  "distinct (map (item_key objs) items) \<Longrightarrow> \<forall>it \<in> set items. seen (item_key objs it) = None \<Longrightarrow>
   \<exists>seen'. dedup_loop objs items (c, seen, d) = Inr (c, seen', d)"
proof (induction items arbitrary: seen)
  case Nil
  then show ?case by simp
next
  case (Cons item items)
  obtain ck r where item: "item = (ck, r)" by (cases item)
  have n: "seen (dedup_key (objs r)) = None" using Cons.prems(2) item by (simp add: item_key_def)
  have step: "dedup_step objs item (c, seen, d) = Inr (c, seen(dedup_key (objs r) \<mapsto> ck), d)"
    using n item by simp
  have "\<forall>it \<in> set items. (seen(dedup_key (objs r) \<mapsto> ck)) (item_key objs it) = None"
  proof
    fix it assume it: "it \<in> set items"
    have "item_key objs item \<notin> item_key objs ` set items" using Cons.prems(1) by simp
    then have "item_key objs it \<noteq> item_key objs item" using it by (metis imageI)
    then have "item_key objs it \<noteq> dedup_key (objs r)"
      using item by (simp add: item_key_def)
    then show "(seen(dedup_key (objs r) \<mapsto> ck)) (item_key objs it) = None"
      using Cons.prems(2) it by simp
  qed
  then have "\<exists>seen'. dedup_loop objs items (c, seen(dedup_key (objs r) \<mapsto> ck), d) = Inr (c, seen', d)"
    using Cons.prems(1) by (intro Cons.IH) simp_all
  then show ?case using step by simp
qed

lemma dedup_survivors_distinct:
  assumes inv: "dedup_inv objs S S (cits, seen, dups)" and dist: "distinct (map fst S)"
  shows "distinct (map (item_key objs) cits)"
proof -
  have cits: "cits = filter (\<lambda>it. fst it \<notin> set dups) S" by (rule dedup_inv_D(1)[OF inv])
  have dS: "distinct S" using dist by (rule distinct_map[THEN iffD1, THEN conjunct1])
  have dc: "distinct cits" using dS cits by simp
  have "inj_on (item_key objs) (set cits)"
  proof (rule inj_onI)
    fix a b assume a: "a \<in> set cits" and b: "b \<in> set cits" and e: "item_key objs a = item_key objs b"
    have aS: "a \<in> set S" "fst a \<notin> set dups" using a cits by auto
    have bS: "b \<in> set S" "fst b \<notin> set dups" using b cits by auto
    obtain k where ko: "kept_ok objs S dups (item_key objs a) k"
      using dedup_inv_seen[OF inv aS(1)] by blast
    have "fst a = k" using kept_ok_others[OF ko aS(1) refl] aS(2) by blast
    moreover have "fst b = k" using kept_ok_others[OF ko bS(1) e[symmetric]] bS(2) by blast
    ultimately have "fst a = fst b" by simp
    then show "a = b" using aS(1) bS(1) dist
      by (metis eq_key_imp_eq_value prod.collapse)
  qed
  then show ?thesis using dc by (simp add: distinct_map)
qed

lemma deduplicate_result:
  assumes "distinct (map fst (citations m))"
  obtains seen removed where
    "deduplicate_citations m
       = Inr (removed, m\<lparr>citations := filter (\<lambda>it. fst it \<notin> set removed) (citations m)\<rparr>)"
    "dedup_inv (objects m) (citations m) (citations m)
       (filter (\<lambda>it. fst it \<notin> set removed) (citations m), seen, removed)"
proof -
  obtain seen dups where
    a: "dedup_loop (objects m) (citations m) (citations m, Map.empty, [])
         = Inr (filter (\<lambda>it. fst it \<notin> set dups) (citations m), seen, dups)" and
    b: "dedup_inv (objects m) (citations m) (citations m)
         (filter (\<lambda>it. fst it \<notin> set dups) (citations m), seen, dups)"
    by (rule dedup_final[OF assms])
  have "deduplicate_citations m
       = Inr (dups, m\<lparr>citations := filter (\<lambda>it. fst it \<notin> set dups) (citations m)\<rparr>)"
    by (simp add: deduplicate_citations_def a)
  then show thesis using that b by blast
qed

lemma dup_manager_removed:
  "map_sum id fst (deduplicate_citations dup_manager) = Inr [''a'', ''c'']"
  by code_simp

lemma dup_manager_left:
  "map_sum id (citations \<circ> snd) (deduplicate_citations dup_manager) = Inr [(''b'', 1)]"
  by code_simp






text \<open>
  C8. After \<^verbatim>\<open>deduplicate_citations\<close> the records left have pairwise distinct keys, and a
  second call on the store it left returns the empty list and leaves that store as it is.
\<close>

theorem deduplicate_idempotent:
  assumes "distinct (map fst (citations m))"
  shows "\<exists>removed m'.
      deduplicate_citations m = Inr (removed, m')
    \<and> distinct (map (\<lambda>it. dedup_key (objects m' (snd it))) (citations m'))
    \<and> deduplicate_citations m' = Inr ([], m')"
proof -
  let ?S = "citations m" and ?o = "objects m"
  obtain seen removed where
    res: "deduplicate_citations m
       = Inr (removed, m\<lparr>citations := filter (\<lambda>it. fst it \<notin> set removed) ?S\<rparr>)" and
    inv: "dedup_inv ?o ?S ?S (filter (\<lambda>it. fst it \<notin> set removed) ?S, seen, removed)"
    by (rule deduplicate_result[OF assms])
  let ?c = "filter (\<lambda>it. fst it \<notin> set removed) ?S"
  let ?m' = "m\<lparr>citations := ?c\<rparr>"
  have d: "distinct (map (item_key ?o) ?c)"
    by (rule dedup_survivors_distinct[OF inv assms])
  have d': "distinct (map (\<lambda>it. dedup_key (objects ?m' (snd it))) (citations ?m'))"
    using d by (simp add: item_key_def[abs_def])
  obtain seen' where "dedup_loop ?o ?c (?c, Map.empty, []) = Inr (?c, seen', [])"
    using dedup_loop_distinct[OF d, of Map.empty ?c "[]"] by auto
  then have again: "deduplicate_citations ?m' = Inr ([], ?m')"
    by (simp add: deduplicate_citations_def)
  show ?thesis using res d' again by blast
qed

theorem deduplicate_idempotent_witness:
  "distinct (map fst (citations dup_manager))
   \<and> (\<exists>removed m'. deduplicate_citations dup_manager = Inr (removed, m')
        \<and> distinct (map (\<lambda>it. dedup_key (objects m' (snd it))) (citations m'))
        \<and> deduplicate_citations m' = Inr ([], m'))"
proof -
  have d: "distinct (map fst (citations dup_manager))" by (simp add: dup_manager_def)
  show ?thesis using d deduplicate_idempotent[OF d] by simp
qed

section \<open>Strings: strip, split and join, int and str\<close>

lemma py_lstrip_id: "s = [] \<or> \<not> P (hd s) \<Longrightarrow> py_lstrip P s = s"
  by (cases s) (auto simp: py_lstrip_def)

lemma py_rstrip_id: "s = [] \<or> \<not> P (last s) \<Longrightarrow> py_rstrip P s = s"
proof (cases s rule: rev_cases)
  case Nil
  then show ?thesis by (simp add: py_rstrip_def)
next
  case (snoc xs x)
  assume "s = [] \<or> \<not> P (last s)"
  then have "\<not> P x" using snoc by simp
  then show ?thesis using snoc by (simp add: py_rstrip_def)
qed

lemma py_strip_chars_id:
  "s = [] \<or> (\<not> P (hd s) \<and> \<not> P (last s)) \<Longrightarrow> py_strip_chars P s = s"
  unfolding py_strip_chars_def
  by (cases "s = []") (simp_all add: py_lstrip_id py_rstrip_id)

lemma py_rstrip_snoc_drop: "P c \<Longrightarrow> py_rstrip P (s @ [c]) = py_rstrip P s"
  by (simp add: py_rstrip_def)

lemma py_lstrip_cons_drop: "P c \<Longrightarrow> py_lstrip P (c # s) = py_lstrip P s"
  by (simp add: py_lstrip_def)

text \<open>A value in braces comes back when it does not begin or end with a stripped character.\<close>

lemma py_strip_chars_wrapped:
  assumes "P a" "P b" "v = [] \<or> (\<not> P (hd v) \<and> \<not> P (last v))"
  shows "py_strip_chars P (a # v @ [b]) = v"
proof (cases "v = []")
  case True
  then show ?thesis using assms(1,2)
    by (simp add: py_strip_chars_def py_lstrip_def py_rstrip_def)
next
  case False
  then have h: "\<not> P (hd v)" and l: "\<not> P (last v)" using assms(3) by auto
  have "py_lstrip P (a # v @ [b]) = v @ [b]"
    using assms(1) h False by (cases v) (auto simp: py_lstrip_def)
  moreover have "py_rstrip P (v @ [b]) = v"
    using assms(2) l False by (simp add: py_rstrip_snoc_drop py_rstrip_id)
  ultimately show ?thesis by (simp add: py_strip_chars_def)
qed

lemma isspace_simps:
  "\<not> isspace CHR ''@''" "\<not> isspace CHR ''}''" "\<not> isspace CHR ''{''" "\<not> isspace CHR '',''"
  "isspace CHR '' ''" "\<not> isspace CHR ''=''"
  by (simp_all add: isspace_def)

section \<open>split and join\<close>

lemma startswith_append: "startswith (sep @ rest) sep"
  by (induction sep) auto

lemma startswith_iff: "startswith s p \<longleftrightarrow> take (length p) s = p"
  by (induction s p rule: startswith.induct) auto

lemma py_split_sep:
  assumes "sep \<noteq> []"
  shows "py_split sep (sep @ rest) = [] # py_split sep rest"
proof -
  obtain c s where cs: "sep @ rest = c # s" using assms by (cases sep) auto
  have "startswith (c # s) sep" using startswith_append[of sep rest] cs by simp
  then have "py_split sep (c # s) = [] # py_split sep (drop (length sep) (c # s))"
    using assms by simp
  also have "drop (length sep) (c # s) = rest" using cs[symmetric] by simp
  finally show ?thesis using cs by simp
qed

lemma py_split_piece:
  assumes "sep \<noteq> []"
    and "\<forall>p < length x. \<not> startswith (drop p (x @ sep @ rest)) sep"
  shows "py_split sep (x @ sep @ rest) = x # py_split sep rest"
  using assms(2)
proof (induction x)
  case Nil
  show ?case using py_split_sep[OF assms(1)] by simp
next
  case (Cons a x)
  have n0: "\<not> startswith (a # x @ sep @ rest) sep"
    using Cons.prems[rule_format, of 0] by simp
  have rest': "\<forall>p < length x. \<not> startswith (drop p (x @ sep @ rest)) sep"
  proof (intro allI impI)
    fix p assume "p < length x"
    then show "\<not> startswith (drop p (x @ sep @ rest)) sep"
      using Cons.prems[rule_format, of "Suc p"] by simp
  qed
  have ih: "py_split sep (x @ sep @ rest) = x # py_split sep rest" by (rule Cons.IH[OF rest'])
  show ?case using n0 ih by simp
qed

lemma py_split_last:
  assumes "\<forall>p < length x. \<not> startswith (drop p x) sep"
  shows "py_split sep x = [x]"
  using assms
proof (induction x)
  case Nil
  show ?case by simp
next
  case (Cons a x)
  have n0: "\<not> startswith (a # x) sep" using Cons.prems[rule_format, of 0] by simp
  have rest': "\<forall>p < length x. \<not> startswith (drop p x) sep"
  proof (intro allI impI)
    fix p assume "p < length x"
    then show "\<not> startswith (drop p x) sep"
      using Cons.prems[rule_format, of "Suc p"] by simp
  qed
  show ?case using n0 Cons.IH[OF rest'] by simp
qed

lemma py_split_join:
  assumes "sep \<noteq> []" "xs \<noteq> []"
    and "\<forall>x \<in> set xs. \<forall>rest. \<forall>p < length x. \<not> startswith (drop p (x @ sep @ rest)) sep"
    and "\<forall>x \<in> set xs. \<forall>p < length x. \<not> startswith (drop p x) sep"
  shows "py_split sep (py_join sep xs) = xs"
  using assms(2-)
proof (induction xs)
  case Nil
  then show ?case by simp
next
  case (Cons x xs)
  show ?case
  proof (cases xs)
    case Nil
    have "\<forall>p < length x. \<not> startswith (drop p x) sep" using Cons.prems(3) by simp
    then show ?thesis using Nil py_split_last[of x sep] by simp
  next
    case (Cons y ys)
    have h: "\<forall>p < length x. \<not> startswith (drop p (x @ sep @ py_join sep xs)) sep"
      using Cons.prems(2) by simp
    have a: "py_split sep (x @ sep @ py_join sep xs) = x # py_split sep (py_join sep xs)"
      by (rule py_split_piece[OF assms(1) h])
    have b: "py_split sep (py_join sep xs) = xs"
      using Cons.IH Cons.prems Cons by simp
    show ?thesis using a b Cons by simp
  qed
qed

lemma not_contains_drop:
  "\<not> py_contains x sub \<Longrightarrow> \<not> startswith (drop p x) sub"
proof (induction x arbitrary: p)
  case Nil
  then show ?case by (cases sub) auto
next
  case (Cons a x)
  show ?case
  proof (cases p)
    case 0
    then show ?thesis using Cons.prems by simp
  next
    case (Suc q)
    then show ?thesis using Cons.IH[of q] Cons.prems by simp
  qed
qed

lemma and_overlap:
  assumes "u \<noteq> []" "startswith (u @ '' and '' @ rest) '' and ''"
  shows "startswith u '' and '' \<or> u = '' and''"
proof -
  obtain c1 u1 where u: "u = c1 # u1" using assms(1) by (cases u) auto
  show ?thesis
  proof (cases u1)
    case Nil
    then show ?thesis using assms(2) u by simp
  next
    case (Cons c2 u2)
    note c2 = Cons
    show ?thesis
    proof (cases u2)
      case Nil
      then show ?thesis using assms(2) u c2 by simp
    next
      case (Cons c3 u3)
      note c3 = Cons
      show ?thesis
      proof (cases u3)
        case Nil
        then show ?thesis using assms(2) u c2 c3 by simp
      next
        case (Cons c4 u4)
        note c4 = Cons
        show ?thesis
        proof (cases u4)
          case Nil
          then show ?thesis using assms(2) u c2 c3 c4 by simp
        next
          case (Cons c5 u5)
          then show ?thesis using assms(2) u c2 c3 c4 by simp
        qed
      qed
    qed
  qed
qed

lemma and_piece:
  assumes "\<not> py_contains x '' and ''" "\<not> py_endswith x '' and''" "p < length x"
  shows "\<not> startswith (drop p (x @ '' and '' @ rest)) '' and ''"
proof
  assume s: "startswith (drop p (x @ '' and '' @ rest)) '' and ''"
  have ne: "drop p x \<noteq> []" using assms(3) by simp
  have "drop p (x @ '' and '' @ rest) = drop p x @ '' and '' @ rest" using assms(3) by simp
  then have "startswith (drop p x @ '' and '' @ rest) '' and ''" using s by simp
  then consider "startswith (drop p x) '' and ''" | "drop p x = '' and''"
    using and_overlap[OF ne] by blast
  then show False
  proof cases
    case 1
    then show ?thesis using not_contains_drop[OF assms(1)] by blast
  next
    case 2
    have "x = take p x @ '' and''" using 2 by (metis append_take_drop_id)
    then have "rev x = rev '' and'' @ rev (take p x)" by (metis rev_append)
    then have "startswith (rev x) (rev '' and'')" by (metis startswith_append)
    then show ?thesis using assms(2) by (simp add: py_endswith_def)
  qed
qed

lemma split_join_and:
  assumes "xs \<noteq> []"
    and "\<forall>x \<in> set xs. \<not> py_contains x '' and '' \<and> \<not> py_endswith x '' and''"
  shows "py_split '' and '' (py_join '' and '' xs) = xs"
proof (rule py_split_join)
  show "'' and '' \<noteq> []" by simp
  show "xs \<noteq> []" by (rule assms(1))
  show "\<forall>x \<in> set xs. \<forall>rest. \<forall>p < length x. \<not> startswith (drop p (x @ '' and '' @ rest)) '' and ''"
    using assms(2) and_piece by blast
  show "\<forall>x \<in> set xs. \<forall>p < length x. \<not> startswith (drop p x) '' and ''"
    using assms(2) not_contains_drop by blast
qed

lemma startswith_single: "startswith s [c] \<longleftrightarrow> s \<noteq> [] \<and> hd s = c"
  by (cases s) auto

lemma split_join_lines:
  assumes "xs \<noteq> []" and "\<forall>x \<in> set xs. c \<notin> set x"
  shows "py_split [c] (py_join [c] xs) = xs"
proof (rule py_split_join)
  show "[c] \<noteq> []" by simp
  show "xs \<noteq> []" by (rule assms(1))
  show "\<forall>x \<in> set xs. \<forall>rest. \<forall>p < length x. \<not> startswith (drop p (x @ [c] @ rest)) [c]"
  proof (intro ballI allI impI)
    fix x rest p assume x: "x \<in> set xs" and p: "p < length x"
    have "hd (drop p (x @ [c] @ rest)) = x ! p" using p by (simp add: hd_drop_conv_nth nth_append)
    moreover have "x ! p \<noteq> c" using assms(2) x p by (metis nth_mem)
    ultimately show "\<not> startswith (drop p (x @ [c] @ rest)) [c]"
      by (simp add: startswith_single)
  qed
  show "\<forall>x \<in> set xs. \<forall>p < length x. \<not> startswith (drop p x) [c]"
  proof (intro ballI allI impI)
    fix x p assume x: "x \<in> set xs" and p: "p < length x"
    have "hd (drop p x) = x ! p" using p by (simp add: hd_drop_conv_nth)
    moreover have "x ! p \<noteq> c" using assms(2) x p by (metis nth_mem)
    ultimately show "\<not> startswith (drop p x) [c]" by (simp add: startswith_single)
  qed
qed

lemma digit_char_props:
  assumes "d < 10"
  shows "is_digit (digit_char d)" "digit_val (digit_char d) = d"
  using assms by (simp_all add: is_digit_def digit_val_def digit_char_def)

lemma int_space_not_digit: "is_digit c \<Longrightarrow> \<not> int_space c"
  by (auto simp: is_digit_def int_space_def)

lemma digit_not_sign: "is_digit c \<Longrightarrow> c \<noteq> CHR ''-'' \<and> c \<noteq> CHR ''+''"
  by (auto simp: is_digit_def)

lemma digit_not_brace:
  "is_digit c \<Longrightarrow> c \<noteq> CHR ''{'' \<and> c \<noteq> CHR ''}'' \<and> c \<noteq> CHR 0x22 \<and> c \<noteq> CHR 0x0A"
  by (auto simp: is_digit_def)

lemma str_nat_digits: "str_nat n \<noteq> [] \<and> (\<forall>c \<in> set (str_nat n). is_digit c)"
proof (induction n rule: str_nat.induct)
  case (1 n)
  show ?case
  proof (cases "n < 10")
    case True
    then have "str_nat n = [digit_char n]" by (subst str_nat.simps) simp
    then show ?thesis using True by (simp add: digit_char_props)
  next
    case False
    have "n mod 10 < 10" by simp
    then have d: "is_digit (digit_char (n mod 10))" by (rule digit_char_props)
    have e: "str_nat n = str_nat (n div 10) @ [digit_char (n mod 10)]"
      using False by (subst str_nat.simps) simp
    show ?thesis unfolding e using d "1.IH"[OF False] by simp
  qed
qed

lemma foldl_str_nat: "foldl (\<lambda>a c. 10 * a + digit_val c) 0 (str_nat n) = n"
proof (induction n rule: str_nat.induct)
  case (1 n)
  show ?case
  proof (cases "n < 10")
    case True
    then have "str_nat n = [digit_char n]" by (subst str_nat.simps) simp
    then show ?thesis using True by (simp add: digit_char_props)
  next
    case False
    have "n mod 10 < 10" by simp
    then have d: "digit_val (digit_char (n mod 10)) = n mod 10" by (rule digit_char_props)
    have e: "str_nat n = str_nat (n div 10) @ [digit_char (n mod 10)]"
      using False by (subst str_nat.simps) simp
    show ?thesis unfolding e using d "1.IH"[OF False] by simp
  qed
qed

lemma int_digits_all:
  "\<forall>c \<in> set ds. is_digit c \<Longrightarrow>
   int_digits acc ds = Some (foldl (\<lambda>a c. 10 * a + digit_val c) acc ds)"
  by (induction acc ds rule: int_digits.induct) auto

lemma int_unsigned_str_nat: "int_unsigned (str_nat n) = Some n"
proof -
  obtain c r where cr: "str_nat n = c # r" using str_nat_digits[of n] by (cases "str_nat n") auto
  have d: "is_digit c" "\<forall>x \<in> set r. is_digit x" using str_nat_digits[of n] cr by auto
  have "int_unsigned (c # r) = int_digits (digit_val c) r" using d(1) by (simp add: int_unsigned_def)
  also have "\<dots> = Some (foldl (\<lambda>a c. 10 * a + digit_val c) (digit_val c) r)"
    by (rule int_digits_all[OF d(2)])
  also have "\<dots> = Some (foldl (\<lambda>a c. 10 * a + digit_val c) 0 (c # r))" by simp
  also have "\<dots> = Some n" using foldl_str_nat[of n] cr by simp
  finally show ?thesis using cr by simp
qed

lemma py_str_int_ends:
  "py_str_int n \<noteq> []"
  "is_digit (hd (py_str_int n)) \<or> hd (py_str_int n) = CHR ''-''"
  "is_digit (last (py_str_int n))"
  "\<forall>c \<in> set (py_str_int n). is_digit c \<or> c = CHR ''-''"
proof -
  have a: "\<And>m. str_nat m \<noteq> []" "\<And>m. \<forall>c \<in> set (str_nat m). is_digit c"
    using str_nat_digits by auto
  have h: "\<And>m. is_digit (hd (str_nat m))" using a by (metis hd_in_set)
  have l: "\<And>m. is_digit (last (str_nat m))" using a by (metis last_in_set)
  show "py_str_int n \<noteq> []" using a by (simp add: py_str_int_def)
  show "is_digit (hd (py_str_int n)) \<or> hd (py_str_int n) = CHR ''-''"
    using h by (simp add: py_str_int_def)
  show "is_digit (last (py_str_int n))" using l a by (simp add: py_str_int_def)
  show "\<forall>c \<in> set (py_str_int n). is_digit c \<or> c = CHR ''-''"
    using a by (auto simp: py_str_int_def)
qed

lemma py_int_str: "py_int (py_str_int n) = Some n"
proof -
  have sp: "\<not> int_space CHR ''-''" by (simp add: int_space_def)
  have "\<not> int_space (hd (py_str_int n))" "\<not> int_space (last (py_str_int n))"
    using py_str_int_ends(2,3)[of n] int_space_not_digit sp by auto
  then have s: "py_strip_chars int_space (py_str_int n) = py_str_int n"
    by (intro py_strip_chars_id) simp
  have p: "py_int (py_str_int n) =
     (case py_str_int n of
        [] \<Rightarrow> None
      | c # r \<Rightarrow>
          if c = CHR ''-'' then map_option (\<lambda>n. - int n) (int_unsigned r)
          else if c = CHR ''+'' then map_option int (int_unsigned r)
          else map_option int (int_unsigned (c # r)))"
    unfolding py_int_def s by (rule refl)
  show ?thesis
  proof (cases "n < 0")
    case True
    then have e: "py_str_int n = CHR ''-'' # str_nat (nat (- n))" by (simp add: py_str_int_def)
    show ?thesis using True by (subst p) (simp add: e int_unsigned_str_nat)
  next
    case False
    then have e: "py_str_int n = str_nat (nat n)" by (simp add: py_str_int_def)
    obtain c r where cr: "str_nat (nat n) = c # r"
      using str_nat_digits[of "nat n"] by (cases "str_nat (nat n)") auto
    have "is_digit c" using str_nat_digits[of "nat n"] cr by simp
    then have ns: "c \<noteq> CHR ''-''" "c \<noteq> CHR ''+''" using digit_not_sign by auto
    have u: "int_unsigned (c # r) = Some (nat n)" using int_unsigned_str_nat[of "nat n"] cr by simp
    show ?thesis using ns u False by (subst p) (simp add: e cr)
  qed
qed

section \<open>The parser: when it returns no record\<close>

lemma py_split_nonempty: "py_split sep s \<noteq> []"
  by (induction sep s rule: py_split.induct) (auto split: list.splits)

lemma match_citekey_nonempty: "match_citekey line = Some k \<Longrightarrow> k \<noteq> []"
  by (auto simp: match_citekey_def split: list.splits if_splits)

lemma parse_line_bad_year:
  "split_field line = Some (''year'', v) \<Longrightarrow> py_int v = None \<Longrightarrow> parse_line f line = f"
  by (simp add: parse_line_def)

lemma parse_line_year_kept:
  assumes "\<forall>v. split_field line = Some (''year'', v) \<longrightarrow> py_int v = None"
  shows "f_year (parse_line f line) = f_year f"
proof (cases "split_field line")
  case None
  then show ?thesis by (simp add: parse_line_def)
next
  case (Some kv)
  obtain k v where kv: "kv = (k, v)" by (cases kv)
  show ?thesis
  proof (cases "k = ''year''")
    case True
    then have "py_int v = None" using assms Some kv by simp
    then show ?thesis using Some kv True by (simp add: parse_line_def)
  next
    case False
    then show ?thesis using Some kv by (simp add: parse_line_def)
  qed
qed

lemma foldl_parse_line_year_kept:
  "\<forall>line \<in> set body. \<forall>v. split_field line = Some (''year'', v) \<longrightarrow> py_int v = None \<Longrightarrow>
   f_year (foldl parse_line f body) = f_year f"
proof (induction body arbitrary: f)
  case Nil
  show ?case by simp
next
  case (Cons line body)
  have "f_year (foldl parse_line (parse_line f line) body) = f_year (parse_line f line)"
    using Cons.prems by (intro Cons.IH) simp
  also have "\<dots> = f_year f" using Cons.prems by (intro parse_line_year_kept) simp
  finally show ?case by simp
qed

lemma create_citation_unfold:
  "create_citation_from_bibtex entry =
     (case match_citekey (hd (py_split [CHR 0x0A] (py_strip entry))) of
        None \<Rightarrow> None
      | Some key \<Rightarrow>
          (let f = foldl parse_line initial_fields (tl (py_split [CHR 0x0A] (py_strip entry))) in
           if key = [] \<or> f_title f = [] \<or> f_authors f = [] \<or> f_year f = 0 then None
           else Some \<lparr>citekey = key, title = f_title f, authors = f_authors f,
                      year = f_year f, journal = f_journal f, ads_bibcode = None,
                      doi = f_doi f, arxiv_id = f_arxiv_id f, ads_url = None,
                      publisher_url = None, last_verified = None,
                      http_status_ads = None, http_status_doi = None,
                      crossref_match = False, ads_match = False, notes_str = [],
                      bibtex_entry = entry\<rparr>))"
proof (cases "py_split [CHR 0x0A] (py_strip entry)")
  case Nil
  then show ?thesis using py_split_nonempty by blast
next
  case (Cons first body)
  show ?thesis unfolding create_citation_from_bibtex_def Cons list.sel list.case by (rule refl)
qed


text \<open>
  C7. \<^verbatim>\<open>create_citation_from_bibtex\<close> returns no record exactly when the first line does not
  match \<^verbatim>\<open>@\w+\{([^,]+),\<close>, or after the body is read the citekey, the title, the author list
  or the year is empty or zero. A year line whose value \<^verbatim>\<open>int\<close> rejects leaves the fields as
  they are (no exception leaves the function); so when no year line of the body has a value
  \<^verbatim>\<open>int\<close> accepts, the year is still 0 and the result is no record.
\<close>

theorem create_citation_failure:
  "(create_citation_from_bibtex entry = None \<longleftrightarrow>
      (case match_citekey (hd (py_split [CHR 0x0A] (py_strip entry))) of
         None \<Rightarrow> True
       | Some key \<Rightarrow>
           key = []
           \<or> f_title (foldl parse_line initial_fields (tl (py_split [CHR 0x0A] (py_strip entry)))) = []
           \<or> f_authors (foldl parse_line initial_fields (tl (py_split [CHR 0x0A] (py_strip entry)))) = []
           \<or> f_year (foldl parse_line initial_fields (tl (py_split [CHR 0x0A] (py_strip entry)))) = 0))
   \<and> (\<forall>f line v. split_field line = Some (''year'', v) \<and> py_int v = None \<longrightarrow> parse_line f line = f)
   \<and> ((\<forall>line \<in> set (tl (py_split [CHR 0x0A] (py_strip entry))).
          \<forall>v. split_field line = Some (''year'', v) \<longrightarrow> py_int v = None) \<longrightarrow>
        f_year (foldl parse_line initial_fields (tl (py_split [CHR 0x0A] (py_strip entry)))) = 0
        \<and> create_citation_from_bibtex entry = None)"
proof -
  let ?lines = "py_split [CHR 0x0A] (py_strip entry)"
  let ?f = "foldl parse_line initial_fields (tl ?lines)"
  have a: "create_citation_from_bibtex entry = None \<longleftrightarrow>
      (case match_citekey (hd ?lines) of
         None \<Rightarrow> True
       | Some key \<Rightarrow> key = [] \<or> f_title ?f = [] \<or> f_authors ?f = [] \<or> f_year ?f = 0)"
    by (subst create_citation_unfold) (simp add: Let_def split: option.splits)
  have b: "\<forall>f line v. split_field line = Some (''year'', v) \<and> py_int v = None \<longrightarrow> parse_line f line = f"
    using parse_line_bad_year by blast
  have c: "(\<forall>line \<in> set (tl ?lines).
          \<forall>v. split_field line = Some (''year'', v) \<longrightarrow> py_int v = None) \<longrightarrow>
        f_year ?f = 0 \<and> create_citation_from_bibtex entry = None"
  proof
    assume h: "\<forall>line \<in> set (tl ?lines). \<forall>v. split_field line = Some (''year'', v) \<longrightarrow> py_int v = None"
    have y: "f_year ?f = 0"
      using foldl_parse_line_year_kept[OF h, of initial_fields] by (simp add: initial_fields_def)
    then have "create_citation_from_bibtex entry = None"
      using a by (simp split: option.splits)
    then show "f_year ?f = 0 \<and> create_citation_from_bibtex entry = None" using y by simp
  qed
  show ?thesis using a b c by (intro conjI)
qed


lemma bad_year_lines:
  "py_split [CHR 0x0A] (py_strip bad_year_entry) =
     [''@misc{key2020,'', ''  title={A Title},'', ''  author={A. Author},'', ''  year={MMXX},'', ''}'']"
  by code_simp

lemma bad_year_fields:
  "split_field ''  title={A Title},'' = Some (''title'', ''A Title'')"
  "split_field ''  author={A. Author},'' = Some (''author'', ''A. Author'')"
  "split_field ''  year={MMXX},'' = Some (''year'', ''MMXX'')"
  "split_field ''}'' = None"
  "py_int ''MMXX'' = None"
  "match_citekey ''@misc{key2020,'' = Some ''key2020''"
  by code_simp+

theorem create_citation_failure_witness:
  "match_citekey (hd (py_split [CHR 0x0A] (py_strip bad_year_entry))) = Some ''key2020''
   \<and> f_year (foldl parse_line initial_fields (tl (py_split [CHR 0x0A] (py_strip bad_year_entry)))) = 0
   \<and> create_citation_from_bibtex bad_year_entry = None"
  using create_citation_failure[of bad_year_entry]
  by (simp add: bad_year_lines bad_year_fields parse_line_def initial_fields_def)

section \<open>The parser on generated text\<close>

section \<open>The first line\<close>

lemma is_word_entry_types:
  "takeWhile is_word (''article'' @ CHR ''{'' # rest) = ''article''"
  "dropWhile is_word (''article'' @ CHR ''{'' # rest) = CHR ''{'' # rest"
  "takeWhile is_word (''misc'' @ CHR ''{'' # rest) = ''misc''"
  "dropWhile is_word (''misc'' @ CHR ''{'' # rest) = CHR ''{'' # rest"
  by (simp_all add: is_word_def)

lemma until_comma:
  assumes "CHR '','' \<notin> set k"
  shows "takeWhile (\<lambda>x. x \<noteq> CHR '','') (k @ '','') = k"
    "dropWhile (\<lambda>x. x \<noteq> CHR '','') (k @ '','') = '',''"
proof -
  have a: "\<And>x. x \<in> set k \<Longrightarrow> x \<noteq> CHR '',''" using assms by auto
  show "takeWhile (\<lambda>x. x \<noteq> CHR '','') (k @ '','') = k"
    using a by (simp add: takeWhile_append2)
  show "dropWhile (\<lambda>x. x \<noteq> CHR '','') (k @ '','') = '',''"
    using a by (simp add: dropWhile_append2)
qed

lemma match_citekey_generated:
  assumes "k \<noteq> []" "CHR '','' \<notin> set k" "t = ''article'' \<or> t = ''misc''"
  shows "match_citekey (''@'' @ t @ ''{'' @ k @ '','') = Some k"
proof -
  have e: "''@'' @ t @ ''{'' @ k @ '','' = CHR ''@'' # (t @ CHR ''{'' # (k @ '',''))" by simp
  have tw: "takeWhile is_word (t @ CHR ''{'' # (k @ '','')) = t"
    and dw: "dropWhile is_word (t @ CHR ''{'' # (k @ '','')) = CHR ''{'' # (k @ '','')"
    using assms(3) is_word_entry_types by auto
  have tne: "t \<noteq> []" using assms(3) by auto
  show ?thesis
    unfolding e match_citekey_def
    using tne assms(1) by (simp add: tw dw until_comma[OF assms(2)])
qed

section \<open>A field line\<close>

lemma span_equals:
  assumes "CHR ''='' \<notin> set k"
  shows "takeWhile (\<lambda>c. c \<noteq> CHR ''='') (k @ CHR ''='' # rest) = k"
    "dropWhile (\<lambda>c. c \<noteq> CHR ''='') (k @ CHR ''='' # rest) = CHR ''='' # rest"
proof -
  have a: "\<And>x. x \<in> set k \<Longrightarrow> x \<noteq> CHR ''=''" using assms by auto
  show "takeWhile (\<lambda>c. c \<noteq> CHR ''='') (k @ CHR ''='' # rest) = k"
    using a by (simp add: takeWhile_append2)
  show "dropWhile (\<lambda>c. c \<noteq> CHR ''='') (k @ CHR ''='' # rest) = CHR ''='' # rest"
    using a by (simp add: dropWhile_append2)
qed

lemma split_field_generated:
  assumes k: "k \<noteq> []" "\<not> isspace (hd k)" "CHR ''='' \<notin> set k" "py_strip k = k"
  shows "split_field (''  '' @ k @ ''={'' @ v @ ''},'') =
     Some (k, py_strip_chars (\<lambda>c. c = CHR 0x22)
                (py_strip_chars (\<lambda>c. c = CHR ''{'' \<or> c = CHR ''}'') (CHR ''{'' # v @ ''}'')))"
proof -
  let ?body = "k @ CHR ''='' # CHR ''{'' # v @ ''}''"
  have l: "py_lstrip isspace (''  '' @ k @ ''={'' @ v @ ''},'') = ?body @ '',''"
    using k(1,2) by (cases k) (simp_all add: py_lstrip_def isspace_simps)
  have r: "py_rstrip isspace (?body @ '','') = ?body @ '',''"
    by (rule py_rstrip_id) (simp add: isspace_simps)
  have s: "py_strip (''  '' @ k @ ''={'' @ v @ ''},'') = ?body @ '',''"
    by (simp only: py_strip_def py_strip_chars_def l r)
  have c: "py_rstrip (\<lambda>c. c = CHR '','') (?body @ '','') = ?body"
  proof -
    have "py_rstrip (\<lambda>c. c = CHR '','') (?body @ [CHR '','']) = py_rstrip (\<lambda>c. c = CHR '','') ?body"
      by (rule py_rstrip_snoc_drop) simp
    also have "\<dots> = ?body" by (rule py_rstrip_id) simp
    finally show ?thesis by simp
  qed
  have v: "py_strip (CHR ''{'' # v @ ''}'') = CHR ''{'' # v @ ''}''"
    unfolding py_strip_def by (rule py_strip_chars_id) (simp add: isspace_simps)
  show ?thesis
    unfolding split_field_def s c Let_def
    by (simp add: span_equals[OF k(3)] k(4) v)
qed

lemma strip_value:
  assumes "bare v"
  shows "py_strip_chars (\<lambda>c. c = CHR 0x22)
           (py_strip_chars (\<lambda>c. c = CHR ''{'' \<or> c = CHR ''}'') (CHR ''{'' # v @ ''}'')) = v"
proof -
  have a: "py_strip_chars (\<lambda>c. c = CHR ''{'' \<or> c = CHR ''}'') (CHR ''{'' # v @ [CHR ''}'']) = v"
    using assms by (intro py_strip_chars_wrapped) (auto simp: bare_def)
  have b: "py_strip_chars (\<lambda>c. c = CHR 0x22) v = v"
    using assms by (intro py_strip_chars_id) (auto simp: bare_def)
  show ?thesis using a b by simp
qed

lemma key_facts:
  "py_strip ''title'' = ''title''" "py_strip ''author'' = ''author''" "py_strip ''year'' = ''year''"
  "py_strip ''journal'' = ''journal''" "py_strip ''doi'' = ''doi''" "py_strip ''eprint'' = ''eprint''"
  "py_strip ''archivePrefix'' = ''archivePrefix''" "py_strip ''adsurl'' = ''adsurl''"
  "py_strip ''url'' = ''url''"
  unfolding py_strip_def
  by (rule py_strip_chars_id, simp add: isspace_def)+

lemma isspace_letters:
  "\<not> isspace CHR ''t''" "\<not> isspace CHR ''a''" "\<not> isspace CHR ''y''" "\<not> isspace CHR ''j''"
  "\<not> isspace CHR ''d''" "\<not> isspace CHR ''e''" "\<not> isspace CHR ''u''"
  by (simp_all add: isspace_def)

lemma field_lines:
  "split_field (''  title={'' @ v @ ''},'') = Some (''title'', py_strip_chars (\<lambda>c. c = CHR 0x22)
                (py_strip_chars (\<lambda>c. c = CHR ''{'' \<or> c = CHR ''}'') (CHR ''{'' # v @ ''}'')))"
  "split_field (''  author={'' @ v @ ''},'') = Some (''author'', py_strip_chars (\<lambda>c. c = CHR 0x22)
                (py_strip_chars (\<lambda>c. c = CHR ''{'' \<or> c = CHR ''}'') (CHR ''{'' # v @ ''}'')))"
  "split_field (''  year={'' @ v @ ''},'') = Some (''year'', py_strip_chars (\<lambda>c. c = CHR 0x22)
                (py_strip_chars (\<lambda>c. c = CHR ''{'' \<or> c = CHR ''}'') (CHR ''{'' # v @ ''}'')))"
  "\<exists>w. split_field (''  journal={'' @ v @ ''},'') = Some (''journal'', w)"
  "\<exists>w. split_field (''  doi={'' @ v @ ''},'') = Some (''doi'', w)"
  "\<exists>w. split_field (''  eprint={'' @ v @ ''},'') = Some (''eprint'', w)"
  "\<exists>w. split_field (''  archivePrefix={'' @ v @ ''},'') = Some (''archivePrefix'', w)"
  "\<exists>w. split_field (''  adsurl={'' @ v @ ''},'') = Some (''adsurl'', w)"
  "\<exists>w. split_field (''  url={'' @ v @ ''},'') = Some (''url'', w)"
  using split_field_generated[of "''title''" v] split_field_generated[of "''author''" v]
    split_field_generated[of "''year''" v] split_field_generated[of "''journal''" v]
    split_field_generated[of "''doi''" v] split_field_generated[of "''eprint''" v]
    split_field_generated[of "''archivePrefix''" v] split_field_generated[of "''adsurl''" v]
    split_field_generated[of "''url''" v]
  by (simp_all add: key_facts isspace_letters)

lemma split_field_closing: "split_field ''}'' = None"
  by (simp add: split_field_def py_strip_def py_strip_chars_def py_lstrip_def py_rstrip_def
      isspace_simps)

lemma parse_line_other:
  assumes "other_line l"
  shows "f_title (parse_line f l) = f_title f \<and> f_authors (parse_line f l) = f_authors f
         \<and> f_year (parse_line f l) = f_year f"
proof (cases "split_field l")
  case None
  then show ?thesis by (simp add: parse_line_def)
next
  case (Some kw)
  obtain k w where kw: "kw = (k, w)" by (cases kw)
  have "k \<noteq> ''title''" "k \<noteq> ''author''" "k \<noteq> ''year''"
    using assms Some kw by (simp_all add: other_line_def)
  then show ?thesis using Some kw by (simp add: parse_line_def)
qed

lemma foldl_parse_line_other:
  "\<forall>l \<in> set ls. other_line l \<Longrightarrow>
   f_title (foldl parse_line f ls) = f_title f \<and> f_authors (foldl parse_line f ls) = f_authors f
   \<and> f_year (foldl parse_line f ls) = f_year f"
proof (induction ls arbitrary: f)
  case Nil
  show ?case by simp
next
  case (Cons l ls)
  have a: "other_line l" and b: "\<forall>l \<in> set ls. other_line l" using Cons.prems by auto
  show ?case using Cons.IH[OF b, of "parse_line f l"] parse_line_other[OF a, of f] by simp
qed

lemma other_lines:
  "other_line (''  journal={'' @ v @ ''},'')" "other_line (''  doi={'' @ v @ ''},'')"
  "other_line (''  eprint={'' @ v @ ''},'')" "other_line ''  archivePrefix={arXiv},''"
  "other_line (''  adsurl={'' @ v @ ''},'')" "other_line (''  url={'' @ v @ ''},'')"
  "other_line ''}''"
proof -
  show "other_line (''  journal={'' @ v @ ''},'')"
    using field_lines(4)[of v] by (auto simp: other_line_def)
  show "other_line (''  doi={'' @ v @ ''},'')"
    using field_lines(5)[of v] by (auto simp: other_line_def)
  show "other_line (''  eprint={'' @ v @ ''},'')"
    using field_lines(6)[of v] by (auto simp: other_line_def)
  show "other_line ''  archivePrefix={arXiv},''"
    using field_lines(7)[of "''arXiv''"] by (auto simp: other_line_def)
  show "other_line (''  adsurl={'' @ v @ ''},'')"
    using field_lines(8)[of v] by (auto simp: other_line_def)
  show "other_line (''  url={'' @ v @ ''},'')"
    using field_lines(9)[of v] by (auto simp: other_line_def)
  show "other_line ''}''" by (simp add: other_line_def split_field_closing)
qed

lemma bibtex_lines_shape:
  "bibtex_lines c =
     (''@'' @ (if truthy (journal c) then ''article'' else ''misc'') @ ''{'' @ citekey c @ '','')
     # (''  title={'' @ title c @ ''},'')
     # (''  author={'' @ py_join '' and '' (authors c) @ ''},'')
     # (''  year={'' @ py_str_int (year c) @ ''},'')
     # optional_lines c"
  by (simp add: bibtex_lines_def optional_lines_def Let_def)

lemma optional_lines_other: "\<forall>l \<in> set (optional_lines c). other_line l"
proof -
  have a: "\<forall>l \<in> set (if truthy (journal c) then [''  journal={'' @ the (journal c) @ ''},''] else []). other_line l"
    using other_lines(1)[of "the (journal c)"] by simp
  have b: "\<forall>l \<in> set (if truthy (doi c) then [''  doi={'' @ the (doi c) @ ''},''] else []). other_line l"
    using other_lines(2)[of "the (doi c)"] by simp
  have d: "\<forall>l \<in> set (if truthy (arxiv_id c)
           then [''  eprint={'' @ the (arxiv_id c) @ ''},'', ''  archivePrefix={arXiv},'']
           else []). other_line l"
    using other_lines(3)[of "the (arxiv_id c)"] other_lines(4) by auto
  have e: "\<forall>l \<in> set (if truthy (ads_bibcode c)
           then [''  adsurl={''
                 @ (if truthy (ads_url c) then the (ads_url c)
                    else ''https://ui.adsabs.harvard.edu/abs/'' @ the (ads_bibcode c))
                 @ ''},'']
           else []). other_line l"
    using other_lines(5)[of "if truthy (ads_url c) then the (ads_url c)
                    else ''https://ui.adsabs.harvard.edu/abs/'' @ the (ads_bibcode c)"] by simp
  have g: "\<forall>l \<in> set (if truthy (publisher_url c) then [''  url={'' @ the (publisher_url c) @ ''},''] else []). other_line l"
    using other_lines(6)[of "the (publisher_url c)"] by simp
  have h: "\<forall>l \<in> set [''}'']. other_line l" using other_lines(7) by simp
  show ?thesis unfolding optional_lines_def set_append using a b d e g h by blast
qed

lemma optional_lines_last: "optional_lines c \<noteq> [] \<and> last (optional_lines c) = ''}''"
  by (simp add: optional_lines_def)

lemma truthy_single_line:
  "truthy v \<Longrightarrow> single_line_opt v \<Longrightarrow> CHR 0x0A \<notin> set (the v)"
  by (cases v) (auto simp: single_line_def)

lemma optional_lines_single:
  assumes "single_line_opt (journal c)" "single_line_opt (doi c)" "single_line_opt (arxiv_id c)"
    "single_line_opt (ads_bibcode c)" "single_line_opt (ads_url c)" "single_line_opt (publisher_url c)"
  shows "\<forall>l \<in> set (optional_lines c). CHR 0x0A \<notin> set l"
proof -
  have a: "\<forall>l \<in> set (if truthy (journal c) then [''  journal={'' @ the (journal c) @ ''},''] else []). CHR 0x0A \<notin> set l"
    using truthy_single_line[OF _ assms(1)] by simp
  have b: "\<forall>l \<in> set (if truthy (doi c) then [''  doi={'' @ the (doi c) @ ''},''] else []). CHR 0x0A \<notin> set l"
    using truthy_single_line[OF _ assms(2)] by simp
  have d: "\<forall>l \<in> set (if truthy (arxiv_id c)
           then [''  eprint={'' @ the (arxiv_id c) @ ''},'', ''  archivePrefix={arXiv},'']
           else []). CHR 0x0A \<notin> set l"
    using truthy_single_line[OF _ assms(3)] by auto
  have e: "\<forall>l \<in> set (if truthy (ads_bibcode c)
           then [''  adsurl={''
                 @ (if truthy (ads_url c) then the (ads_url c)
                    else ''https://ui.adsabs.harvard.edu/abs/'' @ the (ads_bibcode c))
                 @ ''},'']
           else []). CHR 0x0A \<notin> set l"
    using truthy_single_line[OF _ assms(4)] truthy_single_line[OF _ assms(5)] by simp
  have g: "\<forall>l \<in> set (if truthy (publisher_url c) then [''  url={'' @ the (publisher_url c) @ ''},''] else []). CHR 0x0A \<notin> set l"
    using truthy_single_line[OF _ assms(6)] by simp
  have h: "\<forall>l \<in> set [''}'']. CHR 0x0A \<notin> set l" by simp
  show ?thesis unfolding optional_lines_def set_append using a b d e g h by blast
qed

lemma set_py_join: "set (py_join sep xs) \<subseteq> set sep \<union> (\<Union>x \<in> set xs. set x)"
  by (induction sep xs rule: py_join.induct) auto

lemma bare_join:
  assumes "\<forall>a \<in> set xs. bare a"
  shows "bare (py_join '' and '' xs)"
  using assms
proof (induction xs)
  case Nil
  show ?case by (simp add: bare_def)
next
  case (Cons x xs)
  show ?case
  proof (cases xs)
    case Nil
    then show ?thesis using Cons.prems by simp
  next
    case (Cons y ys)
    have bx: "bare x" and br: "bare (py_join '' and '' xs)"
      using Cons.prems Cons.IH by auto
    have e: "py_join '' and '' (x # xs) = x @ '' and '' @ py_join '' and '' xs"
      using Cons by simp
    have h: "hd (x @ '' and '' @ py_join '' and '' xs) \<notin> set [CHR ''{'', CHR ''}'', CHR 0x22]"
      using bx by (cases x) (auto simp: bare_def)
    have l: "last (x @ '' and '' @ py_join '' and '' xs) \<notin> set [CHR ''{'', CHR ''}'', CHR 0x22]"
      using br by (cases "py_join '' and '' xs = []") (auto simp: bare_def)
    show ?thesis unfolding e bare_def using h l by blast
  qed
qed

lemma bare_str_int: "bare (py_str_int n)"
proof -
  have h: "hd (py_str_int n) \<notin> set [CHR ''{'', CHR ''}'', CHR 0x22]"
    using py_str_int_ends(2)[of n] digit_not_brace[of "hd (py_str_int n)"] by auto
  have l: "last (py_str_int n) \<notin> set [CHR ''{'', CHR ''}'', CHR 0x22]"
    using py_str_int_ends(3)[of n] digit_not_brace[of "last (py_str_int n)"] by auto
  show ?thesis unfolding bare_def using h l by blast
qed

lemma single_line_str_int: "CHR 0x0A \<notin> set (py_str_int n)"
  using py_str_int_ends(4)[of n] digit_not_brace by fastforce

lemma hd_py_join: "l \<noteq> [] \<Longrightarrow> hd (py_join sep (l # ls)) = hd l \<and> py_join sep (l # ls) \<noteq> []"
  by (cases ls) auto

lemma last_py_join:
  "xs \<noteq> [] \<Longrightarrow> last xs \<noteq> [] \<Longrightarrow> last (py_join sep xs) = last (last xs)"
proof (induction xs)
  case Nil
  then show ?case by simp
next
  case (Cons x xs)
  show ?case
  proof (cases xs)
    case Nil
    then show ?thesis by simp
  next
    case (Cons y ys)
    have l: "last (x # xs) = last xs" using Cons by simp
    have ne: "last xs \<noteq> []" using Cons.prems(2) l by simp
    have ih: "last (py_join sep xs) = last (last xs)" using Cons.IH Cons ne by simp
    have jne: "py_join sep xs \<noteq> []"
    proof
      assume "py_join sep xs = []"
      then have "set (last xs) \<subseteq> {}"
      proof -
        have "last xs \<in> set xs" using Cons by simp
        moreover have "\<And>z. z \<in> set xs \<Longrightarrow> set z \<subseteq> set (py_join sep xs)"
          by (induction sep xs rule: py_join.induct) auto
        ultimately show ?thesis using \<open>py_join sep xs = []\<close> by fastforce
      qed
      then show False using ne by simp
    qed
    show ?thesis using Cons ih jne l by simp
  qed
qed

lemma generated_lines_split:
  assumes "roundtrip_safe r"
  shows "py_split [CHR 0x0A] (py_strip (generate_basic_bibtex r)) = bibtex_lines r"
proof -
  let ?t = "if truthy (journal r) then ''article'' else ''misc''"
  have safe: "single_line (citekey r)" "single_line (title r)"
    "\<forall>a \<in> set (authors r). single_line a"
    "single_line_opt (journal r)" "single_line_opt (doi r)" "single_line_opt (arxiv_id r)"
    "single_line_opt (ads_bibcode r)" "single_line_opt (ads_url r)"
    "single_line_opt (publisher_url r)"
    using assms by (auto simp: roundtrip_safe_def list_all_iff)
  have l0: "CHR 0x0A \<notin> set (''@'' @ ?t @ ''{'' @ citekey r @ '','')"
    using safe(1) by (simp add: single_line_def)
  have l1: "CHR 0x0A \<notin> set (''  title={'' @ title r @ ''},'')"
    using safe(2) by (simp add: single_line_def)
  have "CHR 0x0A \<notin> set (py_join '' and '' (authors r))"
    using set_py_join[of "'' and ''" "authors r"] safe(3) by (auto simp: single_line_def)
  then have l2: "CHR 0x0A \<notin> set (''  author={'' @ py_join '' and '' (authors r) @ ''},'')"
    by simp
  have l3: "CHR 0x0A \<notin> set (''  year={'' @ py_str_int (year r) @ ''},'')"
    using single_line_str_int[of "year r"] by simp
  have lo: "\<forall>l \<in> set (optional_lines r). CHR 0x0A \<notin> set l"
    by (rule optional_lines_single[OF safe(4-9)])
  have all: "\<forall>l \<in> set (bibtex_lines r). CHR 0x0A \<notin> set l"
    unfolding bibtex_lines_shape using l0 l1 l2 l3 lo by simp
  have ne: "bibtex_lines r \<noteq> []" by (simp add: bibtex_lines_shape)
  have hd: "hd (generate_basic_bibtex r) = CHR ''@'' \<and> generate_basic_bibtex r \<noteq> []"
    using hd_py_join[of "''@'' @ ?t @ ''{'' @ citekey r @ '',''" "[CHR 0x0A]"]
    by (simp add: generate_basic_bibtex_def bibtex_lines_shape)
  have lastl: "last (bibtex_lines r) = ''}''"
    using optional_lines_last[of r] by (simp add: bibtex_lines_shape)
  have last: "last (generate_basic_bibtex r) = CHR ''}''"
    using last_py_join[OF ne, of "[CHR 0x0A]"] lastl by (simp add: generate_basic_bibtex_def)
  have "py_strip (generate_basic_bibtex r) = generate_basic_bibtex r"
    unfolding py_strip_def using hd last by (intro py_strip_chars_id) (simp add: isspace_simps)
  then show ?thesis
    using split_join_lines[OF ne all] by (simp add: generate_basic_bibtex_def)
qed

lemma generated_fields:
  assumes "roundtrip_safe r"
  shows "f_title (foldl parse_line initial_fields (tl (bibtex_lines r))) = title r
       \<and> f_authors (foldl parse_line initial_fields (tl (bibtex_lines r))) = authors r
       \<and> f_year (foldl parse_line initial_fields (tl (bibtex_lines r))) = year r"
proof -
  have safe: "bare (title r)" "authors r \<noteq> []"
    "\<forall>a \<in> set (authors r). py_strip a = a" "\<forall>a \<in> set (authors r). bare a"
    "\<forall>a \<in> set (authors r). \<not> py_contains a '' and '' \<and> \<not> py_endswith a '' and''"
    using assms by (auto simp: roundtrip_safe_def list_all_iff)
  let ?l1 = "''  title={'' @ title r @ ''},''"
  let ?l2 = "''  author={'' @ py_join '' and '' (authors r) @ ''},''"
  let ?l3 = "''  year={'' @ py_str_int (year r) @ ''},''"
  have s1: "split_field ?l1 = Some (''title'', title r)"
    using field_lines(1)[of "title r"] strip_value[OF safe(1)] by simp
  have s2: "split_field ?l2 = Some (''author'', py_join '' and '' (authors r))"
    using field_lines(2)[of "py_join '' and '' (authors r)"] strip_value[OF bare_join[OF safe(4)]]
    by simp
  have s3: "split_field ?l3 = Some (''year'', py_str_int (year r))"
    using field_lines(3)[of "py_str_int (year r)"] strip_value[OF bare_str_int[of "year r"]]
    by simp
  have au: "map py_strip (py_split '' and '' (py_join '' and '' (authors r))) = authors r"
    using split_join_and[OF safe(2) safe(5)] safe(3) by (simp add: map_idI)
  have p1: "\<And>f. parse_line f ?l1 = f\<lparr>f_title := title r\<rparr>"
    unfolding parse_line_def s1 by simp
  have p2: "\<And>f. parse_line f ?l2 = f\<lparr>f_authors := authors r\<rparr>"
    unfolding parse_line_def s2 by (simp add: au)
  have p3: "\<And>f. parse_line f ?l3 = f\<lparr>f_year := year r\<rparr>"
    unfolding parse_line_def s3 by (simp add: py_int_str)
  have tl: "tl (bibtex_lines r) = ?l1 # ?l2 # ?l3 # optional_lines r"
    by (simp add: bibtex_lines_shape)
  let ?f3 = "initial_fields\<lparr>f_title := title r, f_authors := authors r, f_year := year r\<rparr>"
  have "foldl parse_line initial_fields (tl (bibtex_lines r))
          = foldl parse_line ?f3 (optional_lines r)"
    unfolding tl by (simp only: foldl_Cons p1 p2 p3)
  then show ?thesis
    using foldl_parse_line_other[OF optional_lines_other[of r], of ?f3] by simp
qed

lemma generated_citekey:
  assumes "roundtrip_safe r"
  shows "match_citekey (hd (bibtex_lines r)) = Some (citekey r)"
proof -
  have k: "citekey r \<noteq> []" "CHR '','' \<notin> set (citekey r)"
    using assms by (auto simp: roundtrip_safe_def)
  have "hd (bibtex_lines r)
      = ''@'' @ (if truthy (journal r) then ''article'' else ''misc'') @ ''{'' @ citekey r @ '',''"
    by (simp add: bibtex_lines_shape)
  then show ?thesis
    using match_citekey_generated[OF k, of "if truthy (journal r) then ''article'' else ''misc''"]
    by simp
qed

lemma parse_generated:
  assumes "roundtrip_safe r"
  shows "\<exists>c. create_citation_from_bibtex (generate_basic_bibtex r) = Some c
            \<and> citekey c = citekey r \<and> title c = title r \<and> authors c = authors r
            \<and> year c = year r \<and> bibtex_entry c = generate_basic_bibtex r"
proof -
  have v: "citekey r \<noteq> []" "title r \<noteq> []" "authors r \<noteq> []" "year r \<noteq> 0"
    using assms by (auto simp: roundtrip_safe_def)
  show ?thesis
    by (subst create_citation_unfold)
      (simp add: generated_lines_split[OF assms] generated_citekey[OF assms]
        generated_fields[OF assms] v Let_def)
qed

lemma create_citation_caches:
  assumes "create_citation_from_bibtex t = Some c"
  shows "t \<noteq> [] \<and> bibtex_entry c = t \<and> bibtex_block c = t"
proof -
  have ne: "t \<noteq> []"
  proof
    assume "t = []"
    then have "py_split [CHR 0x0A] (py_strip t) = [[]]"
      by (simp add: py_strip_def py_strip_chars_def py_lstrip_def py_rstrip_def)
    then have "create_citation_from_bibtex t = None"
      by (subst create_citation_unfold) (simp add: match_citekey_def)
    then show False using assms by simp
  qed
  have "bibtex_entry c = t"
    using assms
    by (subst (asm) create_citation_unfold) (auto simp: Let_def split: option.splits if_splits)
  then show ?thesis using ne by (simp add: bibtex_block_def)
qed

lemma tully_safe: "roundtrip_safe tully1977new"
  by code_simp

lemma tully_uncached: "bibtex_entry tully1977new = []"
  by (simp add: tully1977new_def)


text \<open>
  C1, as the code has it. Whenever \<^verbatim>\<open>create_citation_from_bibtex\<close> returns a record for a
  text, the text is not empty, the record's \<^verbatim>\<open>bibtex_entry\<close> is that text, and what
  \<^verbatim>\<open>generate_bibtex\<close> writes for the record is that text, character for character. For a
  record that is \<open>roundtrip_safe\<close> and has no cached text, parsing its generated text does
  return a record.
\<close>

theorem regenerate_parsed:
  "(create_citation_from_bibtex t = Some c \<longrightarrow> t \<noteq> [] \<and> bibtex_entry c = t \<and> bibtex_block c = t)
   \<and> (roundtrip_safe r \<and> bibtex_entry r = [] \<longrightarrow>
        (\<exists>c'. create_citation_from_bibtex (bibtex_block r) = Some c'
              \<and> bibtex_block c' = bibtex_block r))"
proof -
  have first: "create_citation_from_bibtex t = Some c \<longrightarrow>
      t \<noteq> [] \<and> bibtex_entry c = t \<and> bibtex_block c = t"
    using create_citation_caches[of t c] by blast
  have second: "roundtrip_safe r \<and> bibtex_entry r = [] \<longrightarrow>
        (\<exists>c'. create_citation_from_bibtex (bibtex_block r) = Some c'
              \<and> bibtex_block c' = bibtex_block r)"
  proof
    assume a: "roundtrip_safe r \<and> bibtex_entry r = []"
    then have b: "bibtex_block r = generate_basic_bibtex r" by (simp add: bibtex_block_def)
    obtain c' where c': "create_citation_from_bibtex (generate_basic_bibtex r) = Some c'"
      using parse_generated[of r] a by blast
    then have "bibtex_block c' = generate_basic_bibtex r" using create_citation_caches by blast
    then show "\<exists>c'. create_citation_from_bibtex (bibtex_block r) = Some c'
              \<and> bibtex_block c' = bibtex_block r"
      using c' b by simp
  qed
  show ?thesis using first second by (rule conjI)
qed


theorem regenerate_parsed_witness:
  "roundtrip_safe tully1977new \<and> bibtex_entry tully1977new = []
   \<and> (\<exists>c. create_citation_from_bibtex (bibtex_block tully1977new) = Some c
          \<and> bibtex_entry c = bibtex_block tully1977new
          \<and> bibtex_block c = bibtex_block tully1977new)"
proof -
  obtain c where c: "create_citation_from_bibtex (bibtex_block tully1977new) = Some c"
    using regenerate_parsed[of "[]" tully1977new tully1977new] tully_safe tully_uncached by blast
  have "bibtex_entry c = bibtex_block tully1977new \<and> bibtex_block c = bibtex_block tully1977new"
    using regenerate_parsed[of "bibtex_block tully1977new" c tully1977new] c by blast
  then show ?thesis using c tully_safe tully_uncached by blast
qed

text \<open>
  The claim C1 as stated fails where the parser rejects a generated text: a title of braces
  only, or an empty title.
\<close>

theorem regenerate_parsed_counterexample:
  "bibtex_entry (tully1977new\<lparr>title := ''{}''\<rparr>) = []
   \<and> title (tully1977new\<lparr>title := ''{}''\<rparr>) \<noteq> []
   \<and> create_citation_from_bibtex (bibtex_block (tully1977new\<lparr>title := ''{}''\<rparr>)) = None
   \<and> create_citation_from_bibtex (bibtex_block (tully1977new\<lparr>title := []\<rparr>)) = None"
  by code_simp


text \<open>
  C2, as the code has it. For every record that is \<open>roundtrip_safe\<close> and has no cached text,
  parsing the generated text returns a record whose citekey, title, authors and year are
  those of the record.
\<close>

theorem parse_generated_fields:
  assumes "roundtrip_safe r" "bibtex_entry r = []"
  shows "\<exists>c. create_citation_from_bibtex (bibtex_block r) = Some c
            \<and> citekey c = citekey r \<and> title c = title r \<and> authors c = authors r
            \<and> year c = year r"
  using parse_generated[OF assms(1)] assms(2) by (auto simp: bibtex_block_def)

theorem parse_generated_fields_witness:
  "roundtrip_safe tully1977new \<and> bibtex_entry tully1977new = []
   \<and> map_option title (create_citation_from_bibtex (bibtex_block tully1977new))
       = Some ''A New Method of Determining Distances to Galaxies''
   \<and> map_option authors (create_citation_from_bibtex (bibtex_block tully1977new))
       = Some [''R. Brent Tully'', ''J. Richard Fisher'']
   \<and> map_option year (create_citation_from_bibtex (bibtex_block tully1977new)) = Some 1977
   \<and> map_option citekey (create_citation_from_bibtex (bibtex_block tully1977new)) = Some ''tully1977new''"
proof -
  obtain c where c: "create_citation_from_bibtex (bibtex_block tully1977new) = Some c"
    "citekey c = citekey tully1977new" "title c = title tully1977new"
    "authors c = authors tully1977new" "year c = year tully1977new"
    using parse_generated_fields[OF tully_safe tully_uncached] by blast
  show ?thesis using c tully_safe tully_uncached by (simp add: tully1977new_def)
qed

text \<open>
  The claim C2 as stated fails on a record with all required fields whose title begins with
  a brace: the parser strips it.
\<close>

theorem parse_generated_fields_counterexample:
  "citekey (tully1977new\<lparr>title := ''{HI} Observations of Galaxies''\<rparr>) \<noteq> []
   \<and> title (tully1977new\<lparr>title := ''{HI} Observations of Galaxies''\<rparr>) \<noteq> []
   \<and> authors (tully1977new\<lparr>title := ''{HI} Observations of Galaxies''\<rparr>) \<noteq> []
   \<and> year (tully1977new\<lparr>title := ''{HI} Observations of Galaxies''\<rparr>) \<noteq> 0
   \<and> bibtex_entry (tully1977new\<lparr>title := ''{HI} Observations of Galaxies''\<rparr>) = []
   \<and> map_option title (create_citation_from_bibtex
        (bibtex_block (tully1977new\<lparr>title := ''{HI} Observations of Galaxies''\<rparr>)))
       = Some ''HI} Observations of Galaxies''"
  by code_simp

end
